theory Spec2Isabelle
  imports Complex_Main
begin

section \<open>Arrays\<close>

text \<open>
  A two-dimensional numpy array is a dense buffer in row-major order together with its
  shape: the cell in row \<open>r\<close> and column \<open>c\<close> is \<open>data ! (r * ncols + c)\<close>, and
  \<open>ravel\<close> is the buffer itself.  Elevations are floating-point numbers in the program
  and real numbers here.  A richdem array (\<open>rdarray\<close>) is a numpy array that also
  carries a no-data sentinel and the georeference, of which only the cell size
  (\<open>geotransform[1]\<close>) is used.
\<close>

record 'a ndarray =
  nrows :: nat
  ncols :: nat
  data :: "'a list"

record 'a rdarray = "'a ndarray" +
  no_data :: 'a
  cell_size :: real

datatype py_error = ValueError | IndexError

definition np2rdarray :: "('a, 'm) ndarray_scheme \<Rightarrow> 'a \<Rightarrow> real \<Rightarrow> 'a rdarray" where
  "np2rdarray in_array nd cs =
     \<lparr>nrows = nrows in_array, ncols = ncols in_array, data = data in_array,
      no_data = nd, cell_size = cs\<rparr>"

text \<open>\<open>np.bincount\<close>: the number of occurrences of every value from 0 to the maximum;
  the empty array for an empty input.\<close>

definition bincount :: "nat list \<Rightarrow> nat list" where
  "bincount xs =
     (if xs = [] then [] else map (\<lambda>v. count_list xs v) [0..<Suc (Max (set xs))])"

section \<open>Connected-component labelling\<close>

text \<open>
  \<open>scipy.ndimage.label\<close> with its default structuring element: the features are the
  4-connected components of the cells that are not zero (\<open>True\<close> in a boolean array),
  numbered from 1 in raster-scan order of their first cell; the background is 0.  Two
  flat indices are neighbours when they are vertically adjacent (they differ by the row
  length) or horizontally adjacent within one row.
\<close>

definition adjacent4 :: "nat \<Rightarrow> nat \<Rightarrow> nat \<Rightarrow> bool" where
  "adjacent4 w i j \<longleftrightarrow>
     j = i + w \<or> i = j + w \<or> (j = i + 1 \<and> j mod w \<noteq> 0) \<or> (i = j + 1 \<and> i mod w \<noteq> 0)"

definition fg_edges :: "nat \<Rightarrow> nat list \<Rightarrow> (nat \<times> nat) list" where
  "fg_edges w fg = [(i, j). i \<leftarrow> fg, j \<leftarrow> fg, adjacent4 w i j]"

definition connected4 :: "nat \<Rightarrow> nat list \<Rightarrow> nat \<Rightarrow> nat \<Rightarrow> bool" where
  "connected4 w fg i j \<longleftrightarrow> i = j \<or> (i, j) \<in> trancl (set (fg_edges w fg))"

text \<open>The first cell, in raster order, of the component of a foreground cell.\<close>

definition component :: "nat \<Rightarrow> nat list \<Rightarrow> nat \<Rightarrow> nat list" where
  "component w fg i = filter (connected4 w fg i) fg"

definition component_root :: "nat \<Rightarrow> nat list \<Rightarrow> nat \<Rightarrow> nat" where
  "component_root w fg i = Min (set (component w fg i))"

definition roots :: "nat \<Rightarrow> nat list \<Rightarrow> nat list" where
  "roots w fg = filter (\<lambda>j. component_root w fg j = j) fg"

text \<open>The position of a first cell among the first cells, counted from 1.\<close>

definition rank :: "nat list \<Rightarrow> nat \<Rightarrow> nat" where
  "rank rs r = length (filter (\<lambda>x. x \<le> r) rs)"

definition label_of :: "nat \<Rightarrow> nat list \<Rightarrow> nat \<Rightarrow> nat" where
  "label_of w fg i = (if i \<in> set fg then rank (roots w fg) (component_root w fg i) else 0)"

definition foreground :: "bool list \<Rightarrow> nat list" where
  "foreground bs = filter (\<lambda>i. bs ! i) [0..<length bs]"

definition ndimage_label :: "(bool, 'm) ndarray_scheme \<Rightarrow> nat ndarray \<times> nat" where
  "ndimage_label input =
     (let fg = foreground (data input)
      in (\<lparr>nrows = nrows input, ncols = ncols input,
           data = map (label_of (ncols input) fg) [0..<length (data input)]\<rparr>,
          length (roots (ncols input) fg)))"

section \<open>Region grouping\<close>

text \<open>
  \<open>regionGroup\<close> writes into the buffer it is given, so the model returns the buffer
  after the call next to the result.  The assignment \<open>mask_sizes[0] = 0\<close> raises
  \<open>IndexError\<close> when \<open>bincount\<close> returned the empty array.  The lookup
  \<open>mask_sizes[label_objects]\<close> is in range, because \<open>sizes\<close> has one entry for every
  label up to the largest.
\<close>

definition nonzero :: "(real, 'm) ndarray_scheme \<Rightarrow> bool ndarray" where
  "nonzero a = \<lparr>nrows = nrows a, ncols = ncols a, data = map (\<lambda>v. v \<noteq> 0) (data a)\<rparr>"

text \<open>The cells that \<open>regionGroup\<close> labels in its first pass: those that are neither zero
  nor equal to the no-data value.\<close>

definition depth_mask :: "(real, 'm) ndarray_scheme \<Rightarrow> real \<Rightarrow> nat list" where
  "depth_mask img_array nd = foreground (map (\<lambda>v. v \<noteq> nd \<and> v \<noteq> 0) (data img_array))"

text \<open>The cells of the components with more than \<open>min_size\<close> cells, and the cells that
  carry a given label.\<close>

definition kept_cells :: "nat \<Rightarrow> nat list \<Rightarrow> int \<Rightarrow> nat list" where
  "kept_cells w fg min_size = filter (\<lambda>i. min_size < int (length (component w fg i))) fg"

definition footprint :: "nat list \<Rightarrow> nat \<Rightarrow> nat set" where
  "footprint labels l = {i. i < length labels \<and> labels ! i = l}"

definition regionGroup ::
  "(real, 'm) ndarray_scheme \<Rightarrow> int \<Rightarrow> real
     \<Rightarrow> (real, 'm) ndarray_scheme \<times> (py_error + nat ndarray \<times> nat)" where
  "regionGroup img_array min_size nd =
     (let img_array = img_array\<lparr>data := map (\<lambda>v. if v = nd then 0 else v) (data img_array)\<rparr>;
          (label_objects, nb_labels) = ndimage_label (nonzero img_array);
          sizes = bincount (data label_objects);
          mask_sizes = map (\<lambda>s. min_size < int s) sizes
      in if mask_sizes = [] then (img_array, Inl IndexError)
         else
           let mask_sizes = mask_sizes[0 := False];
               image_cleaned =
                 \<lparr>nrows = nrows label_objects, ncols = ncols label_objects,
                  data = map (\<lambda>l. mask_sizes ! l) (data label_objects)\<rparr>;
               (label_objects, nb_labels) = ndimage_label image_cleaned
           in (img_array, Inr (label_objects, nb_labels)))"

section \<open>Depression filling\<close>

text \<open>
  Modelled from the spec: \<open>rd.FillDepressions\<close> belongs to the richdem library and is
  not part of the sources.  The model is the priority-flood of the specification: the
  queue is seeded, in raster order, with the boundary cells and the cells next to a
  no-data cell at their raw elevation; the lowest cell is popped (first in, first out
  among equal elevations) and every unresolved neighbour is raised to the maximum of
  the popped elevation and its own, marked resolved and pushed.  No-data cells are
  never enqueued and never changed.  The neighbourhood is richdem's default, the eight
  surrounding cells.
\<close>

definition neighbours8 :: "nat \<Rightarrow> nat \<Rightarrow> nat \<Rightarrow> nat list" where
  "neighbours8 h w i =
     (let r = i div w; c = i mod w
      in [r' * w + c'. r' \<leftarrow> [r - 1..<min h (r + 2)], c' \<leftarrow> [c - 1..<min w (c + 2)],
                       (r', c') \<noteq> (r, c)])"

definition on_boundary :: "nat \<Rightarrow> nat \<Rightarrow> nat \<Rightarrow> bool" where
  "on_boundary h w i \<longleftrightarrow> i div w = 0 \<or> i mod w = 0 \<or> Suc (i div w) = h \<or> Suc (i mod w) = w"

fun pq_push :: "real \<times> nat \<Rightarrow> (real \<times> nat) list \<Rightarrow> (real \<times> nat) list" where
  "pq_push x [] = [x]"
| "pq_push x (y # ys) = (if fst x < fst y then x # y # ys else y # pq_push x ys)"

definition visit ::
  "real list \<Rightarrow> real \<Rightarrow> real \<Rightarrow> nat
     \<Rightarrow> real list \<times> bool list \<times> (real \<times> nat) list
     \<Rightarrow> real list \<times> bool list \<times> (real \<times> nat) list" where
  "visit raw nd e n =
     (\<lambda>(filled, resolved, queue).
        if n < length resolved \<and> \<not> resolved ! n \<and> raw ! n \<noteq> nd
        then (filled[n := max e (raw ! n)], resolved[n := True],
              pq_push (max e (raw ! n), n) queue)
        else (filled, resolved, queue))"

definition unresolved :: "bool list \<Rightarrow> nat" where
  "unresolved resolved = length (filter Not resolved)"

lemma unresolved_update:
  "n < length resolved \<Longrightarrow> \<not> resolved ! n
     \<Longrightarrow> Suc (unresolved (resolved[n := True])) = unresolved resolved"
  unfolding unresolved_def
proof (induction resolved arbitrary: n)
  case Nil
  then show ?case by simp
next
  case (Cons b bs)
  then show ?case by (cases n) auto
qed

lemma length_pq_push: "length (pq_push x q) = Suc (length q)"
  by (induction q) auto

lemma visit_measure:
  "visit raw nd e n (f, r, q) = (f', r', q')
     \<Longrightarrow> 2 * unresolved r' + length q' \<le> 2 * unresolved r + length q"
  using unresolved_update [of n r]
  by (auto simp: visit_def length_pq_push split: if_splits)

lemma fold_visit_measure:
  "fold (visit raw nd e) ns (f, r, q) = (f', r', q')
     \<Longrightarrow> 2 * unresolved r' + length q' \<le> 2 * unresolved r + length q"
proof (induction ns arbitrary: f r q)
  case Nil
  then show ?case by simp
next
  case (Cons n ns)
  obtain f1 r1 q1 where v: "visit raw nd e n (f, r, q) = (f1, r1, q1)"
    by (cases "visit raw nd e n (f, r, q)") auto
  with Cons.prems have "fold (visit raw nd e) ns (f1, r1, q1) = (f', r', q')"
    by simp
  from Cons.IH [OF this] visit_measure [OF v] show ?case
    by linarith
qed

function flood ::
  "nat \<Rightarrow> nat \<Rightarrow> real list \<Rightarrow> real \<Rightarrow> real list \<Rightarrow> bool list \<Rightarrow> (real \<times> nat) list
     \<Rightarrow> real list" where
  "flood h w raw nd filled resolved [] = filled"
| "flood h w raw nd filled resolved ((e, i) # queue) =
     (case fold (visit raw nd e) (neighbours8 h w i) (filled, resolved, queue) of
        (filled', resolved', queue') \<Rightarrow> flood h w raw nd filled' resolved' queue')"
  by pat_completeness auto
termination
proof (relation "measure (\<lambda>(h, w, raw, nd, filled, resolved, queue).
                   2 * unresolved resolved + length queue)")
  show "wf (measure (\<lambda>(h, w, raw, nd, filled, resolved, queue).
                   2 * unresolved resolved + length queue))"
    by simp
next
  fix h w :: nat and raw filled x2 :: "real list" and nd e :: real and i :: nat
    and resolved x1a :: "bool list" and queue x2a :: "(real \<times> nat) list"
    and x y
  assume "(x, y) = fold (visit raw nd e) (neighbours8 h w i) (filled, resolved, queue)"
    and "(x1a, x2a) = y"
  then have "fold (visit raw nd e) (neighbours8 h w i) (filled, resolved, queue) = (x, x1a, x2a)"
    by simp
  from fold_visit_measure [OF this]
  show "((h, w, raw, nd, x, x1a, x2a), h, w, raw, nd, filled, resolved, (e, i) # queue)
          \<in> measure (\<lambda>(h, w, raw, nd, filled, resolved, queue).
                   2 * unresolved resolved + length queue)"
    by simp
qed

definition is_seed :: "nat \<Rightarrow> nat \<Rightarrow> real list \<Rightarrow> real \<Rightarrow> nat \<Rightarrow> bool" where
  "is_seed h w raw nd i \<longleftrightarrow>
     raw ! i \<noteq> nd \<and> (on_boundary h w i \<or> list_ex (\<lambda>n. raw ! n = nd) (neighbours8 h w i))"

definition FillDepressions :: "real rdarray \<Rightarrow> real rdarray" where
  "FillDepressions dem =
     (let h = nrows dem; w = ncols dem; raw = data dem; nd = no_data dem;
          cells = [0..<length raw];
          seeds = filter (is_seed h w raw nd) cells
      in dem\<lparr>data := flood h w raw nd raw (map (is_seed h w raw nd) cells)
                         (fold (\<lambda>i. pq_push (raw ! i, i)) seeds [])\<rparr>)"

section \<open>Region properties\<close>

text \<open>
  \<open>skimage.measure.regionprops\<close> yields one object for every label from 1 to the largest
  that occurs in the label image, in ascending order.  Of its properties the program
  reads the label (an integer), the area (the number of cells, which skimage returns as
  a float), the least and the greatest intensity over the cells of the region, and the
  intensity image: the intensities over the bounding box of the region, with 0 at the
  cells outside the region.
\<close>

record region =
  label :: nat
  area :: real
  min_intensity :: real
  max_intensity :: real
  intensity_image :: "real list"

definition region_cells :: "nat list \<Rightarrow> nat \<Rightarrow> nat list" where
  "region_cells labels l = filter (\<lambda>i. labels ! i = l) [0..<length labels]"

definition region_of :: "nat ndarray \<Rightarrow> real list \<Rightarrow> nat \<Rightarrow> region" where
  "region_of label_image intensity l =
     (let w = ncols label_image; labels = data label_image;
          cells = region_cells labels l;
          rws = map (\<lambda>i. i div w) cells; cls = map (\<lambda>i. i mod w) cells
      in \<lparr>label = l, area = real (length cells),
          min_intensity = Min (set (map (\<lambda>i. intensity ! i) cells)),
          max_intensity = Max (set (map (\<lambda>i. intensity ! i) cells)),
          intensity_image =
            [if labels ! (r * w + c) = l then intensity ! (r * w + c) else 0.
               r \<leftarrow> [Min (set rws)..<Suc (Max (set rws))],
               c \<leftarrow> [Min (set cls)..<Suc (Max (set cls))]]\<rparr>)"

definition regionprops :: "nat ndarray \<Rightarrow> (real, 'm) ndarray_scheme \<Rightarrow> region list" where
  "regionprops label_image intensity =
     (if data label_image = [] then []
      else [region_of label_image (data intensity) l.
              l \<leftarrow> [1..<Suc (Max (set (data label_image)))],
              region_cells (data label_image) l \<noteq> []])"

section \<open>Depression attributes\<close>

text \<open>
  The quotient and the product of numpy floats are floats that need not be numbers:
  dividing by zero raises nothing, it gives \<open>nan\<close> for \<open>0 / 0\<close> and an infinity with
  the sign of the dividend otherwise (and a \<open>RuntimeWarning\<close>); \<open>nan\<close> times anything
  and an infinity times 0 are \<open>nan\<close>.  The elevations, the pixel count and the
  resolution are numbers.
\<close>

datatype float64 = Finite real | PosInf | NegInf | NaN

definition true_divide :: "real \<Rightarrow> real \<Rightarrow> float64" where
  "true_divide a b =
     (if b \<noteq> 0 then Finite (a / b) else if a = 0 then NaN else if 0 < a then PosInf else NegInf)"

fun multiply :: "float64 \<Rightarrow> real \<Rightarrow> float64" where
  "multiply (Finite a) b = Finite (a * b)"
| "multiply PosInf b = (if b = 0 then NaN else if 0 < b then PosInf else NegInf)"
| "multiply NegInf b = (if b = 0 then NaN else if 0 < b then NegInf else PosInf)"
| "multiply NaN b = NaN"

fun isfinite :: "float64 \<Rightarrow> bool" where
  "isfinite (Finite a) = True"
| "isfinite PosInf = False"
| "isfinite NegInf = False"
| "isfinite NaN = False"

record Depression =
  id' :: nat
  count :: real
  size' :: real
  volume :: float64
  meanDepth :: float64
  maxDepth :: real
  minElev :: real
  bndElev :: real

text \<open>
  The mean depth is a quotient by the pixel count, and the source divides without
  looking at the divisor.  The loop appends one record for every region.
\<close>

definition dep_props :: "real \<Rightarrow> region \<Rightarrow> Depression" where
  "dep_props resolution object =
     (let unique_id = label object;
          cnt = area object;
          sz = cnt * resolution ^ 2;
          min_elev = min_intensity object;
          max_elev = max_intensity object;
          max_depth = max_elev - min_elev;
          mean_depth = true_divide (max_elev * cnt - sum_list (intensity_image object)) cnt;
          vol = multiply (multiply mean_depth cnt) (resolution ^ 2)
      in \<lparr>id' = unique_id, count = cnt, size' = sz, volume = vol,
          meanDepth = mean_depth, maxDepth = max_depth, minElev = min_elev,
          bndElev = max_elev\<rparr>)"

fun get_dep_props :: "region list \<Rightarrow> real \<Rightarrow> Depression list" where
  "get_dep_props [] resolution = []"
| "get_dep_props (object # objects) resolution =
     dep_props resolution object # get_dep_props objects resolution"

section \<open>The attribute table\<close>

text \<open>
  \<open>write_dep_csv\<close> writes a header line and one line for every record.  The model
  returns the lines in the order they are written, each as the list of its fields;
  \<open>csv_text\<close> joins them with commas and ends each line with a newline.  The label
  is an integer and is printed in decimal.  The pixel count and the area are floats
  under the plain \<open>{}\<close>, whose digits depend on the binary representation of the
  float; that conversion is the parameter \<open>float_str\<close>.  The five fields under
  \<open>{:.2f}\<close> are rounded to two decimal places, to nearest with ties to even, when
  they are numbers; an infinity is printed as \<open>inf\<close> and \<open>nan\<close> as \<open>nan\<close>.
\<close>

definition digit_char :: "nat \<Rightarrow> char" where
  "digit_char d = ''0123456789'' ! d"

fun str_nat :: "nat \<Rightarrow> string" where
  "str_nat n = (if n < 10 then [digit_char n] else str_nat (n div 10) @ [digit_char (n mod 10)])"

definition round_half_even :: "real \<Rightarrow> nat" where
  "round_half_even x =
     (let f = nat \<lfloor>x\<rfloor>; d = x - real_of_int \<lfloor>x\<rfloor>
      in if d < 1 / 2 then f else if 1 / 2 < d then Suc f else if even f then f else Suc f)"

definition format_2f :: "real \<Rightarrow> string" where
  "format_2f x =
     (let q = round_half_even (\<bar>x\<bar> * 100)
      in (if x < 0 then ''-'' else []) @ str_nat (q div 100) @ ''.''
           @ [digit_char (q mod 100 div 10), digit_char (q mod 10)])"

fun format_2f_float64 :: "float64 \<Rightarrow> string" where
  "format_2f_float64 (Finite x) = format_2f x"
| "format_2f_float64 PosInf = ''inf''"
| "format_2f_float64 NegInf = ''-inf''"
| "format_2f_float64 NaN = ''nan''"

definition header :: "string list" where
  "header = [''region-id'', ''count'', ''area'', ''volume'', ''avg-depth'', ''max-depth'',
             ''min-elev'', ''max-elev'']"

definition csv_fields :: "(real \<Rightarrow> string) \<Rightarrow> Depression \<Rightarrow> string list" where
  "csv_fields float_str dep =
     [str_nat (id' dep), float_str (count dep), float_str (size' dep),
      format_2f_float64 (volume dep), format_2f_float64 (meanDepth dep),
      format_2f (maxDepth dep), format_2f (minElev dep), format_2f (bndElev dep)]"

definition write_dep_csv :: "(real \<Rightarrow> string) \<Rightarrow> Depression list \<Rightarrow> string list list" where
  "write_dep_csv float_str dep_list = header # map (csv_fields float_str) dep_list"

fun join_commas :: "string list \<Rightarrow> string" where
  "join_commas [] = []"
| "join_commas [f] = f"
| "join_commas (f # g # fs) = f @ '','' @ join_commas (g # fs)"

definition csv_text :: "string list list \<Rightarrow> string" where
  "csv_text rows = concat (map (\<lambda>r. join_commas r @ [CHR 0x0A]) rows)"

text \<open>A string with exactly two decimal places: an optional sign, at least one digit,
  a point and two digits.\<close>

definition is_digit :: "char \<Rightarrow> bool" where
  "is_digit ch \<longleftrightarrow> ch \<in> set ''0123456789''"

definition digits :: "string \<Rightarrow> bool" where
  "digits ds \<longleftrightarrow> ds \<noteq> [] \<and> list_all is_digit ds"

definition two_decimals :: "string \<Rightarrow> bool" where
  "two_decimals s =
     (case rev s of
        b # a # p # ip \<Rightarrow>
          is_digit b \<and> is_digit a \<and> p = CHR ''.''
          \<and> (case rev ip of
                [] \<Rightarrow> False
              | sg # ds \<Rightarrow> if sg = CHR ''-'' then digits ds else digits (sg # ds))
      | _ \<Rightarrow> False)"

section \<open>Sink extraction\<close>

text \<open>
  \<open>ExtractSinks\<close> loads the DEM from a file and writes its results to files; loading
  and saving are outside the model, which takes the loaded array and returns the
  arrays handed to \<open>rd.SaveGDAL\<close>, the list handed to \<open>write_dep_csv\<close>, and the array
  \<open>sink\<close> that the function returns.  \<open>np.max\<close> and \<open>np.min\<close> raise \<open>ValueError\<close> on an
  empty array; the minimum is taken over the cells greater than 0.
\<close>

record sink_outputs =
  out_dem_filled :: "real rdarray"
  out_dem_diff :: "real rdarray"
  out_depth :: "real rdarray"
  out_csv_file :: "Depression list"
  out_region :: "nat rdarray"
  out_dem :: "real rdarray"
  sink :: "real rdarray"

definition elev_range :: "real rdarray \<Rightarrow> py_error + real \<times> real" where
  "elev_range dem =
     (if data dem = [] then Inl ValueError
      else
        let max_elev = Max (set (data dem));
            positive = filter (\<lambda>v. 0 < v) (data dem)
        in if positive = [] then Inl ValueError else Inr (Min (set positive), max_elev))"

definition ExtractSinks :: "real rdarray \<Rightarrow> int \<Rightarrow> py_error + sink_outputs" where
  "ExtractSinks dem min_size =
     (case elev_range dem of
        Inl e \<Rightarrow> Inl e
      | Inr (min_elev, max_elev) \<Rightarrow>
          let nd = no_data dem;
              cs = cell_size dem;
              dem_filled = FillDepressions dem;
              dem_diff = dem_filled\<lparr>data := map2 (-) (data dem_filled) (data dem), no_data := 0\<rparr>;
              (dem_diff', grouped) = regionGroup dem_diff min_size nd
          in case grouped of
               Inl e \<Rightarrow> Inl e
             | Inr (label_objects, nb_labels) \<Rightarrow>
                 let depth =
                       np2rdarray
                         (dem_diff'\<lparr>data := map2 (\<lambda>l v. if l = 0 then 0 else v)
                                               (data label_objects) (data dem_diff')\<rparr>) 0 cs;
                     objects = regionprops label_objects dem;
                     dep_list = get_dep_props objects cs;
                     region = np2rdarray label_objects 0 cs;
                     sink = np2rdarray
                              (dem\<lparr>data := map2 (\<lambda>l v. if l = 0 then 0 else v)
                                              (data region) (data dem)\<rparr>) 0 cs;
                     dem_refined =
                       np2rdarray
                         (dem_filled\<lparr>data := map2 (\<lambda>l (v, f). if 0 < l then v else f)
                                                (data region)
                                                (zip (data dem) (data dem_filled))\<rparr>) nd cs
                 in Inr \<lparr>out_dem_filled = dem_filled, out_dem_diff = dem_diff,
                         out_depth = depth, out_csv_file = dep_list,
                         out_region = region, out_dem = dem_refined, sink = sink\<rparr>)"

section \<open>Mounts\<close>

text \<open>
  The maximum and the minimum are taken over the cells that differ from the no-data
  sentinel, and \<open>np.max\<close> of an empty selection raises \<open>ValueError\<close>.  Arithmetic on an
  \<open>rdarray\<close> keeps its metadata, so the flipped array has the sentinel of the input.
\<close>

definition get_min_max_nodata :: "real rdarray \<Rightarrow> py_error + real \<times> real \<times> real" where
  "get_min_max_nodata dem =
     (let nd = no_data dem;
          valid = filter (\<lambda>v. v \<noteq> nd) (data dem)
      in if valid = [] then Inl ValueError
         else Inr (Min (set valid), Max (set valid), nd))"

definition FlipDEM :: "real rdarray \<Rightarrow> real \<Rightarrow> py_error + real rdarray" where
  "FlipDEM dem delta =
     (let nd = no_data dem;
          valid = filter (\<lambda>v. v \<noteq> nd) (data dem)
      in if valid = [] then Inl ValueError
         else
           let max_elev = Max (set valid);
               flipped = map (\<lambda>v. v * (- 1) + max_elev + delta) (data dem)
           in Inr (dem\<lparr>data := map (\<lambda>v. if v = nd * (- 1) then nd else v) flipped\<rparr>))"

text \<open>
  Modelled from the spec: \<open>DelineateDepressions\<close> (module \<open>slicing\<close>) is not part of
  the sources; it is the parameter of \<open>DelineateMounts\<close>, which hands it the sinks of
  the flipped DEM, the minimum size, the minimum height and the slicing interval.  The
  flipped DEM is written to a file that \<open>ExtractSinks\<close> reads back.
\<close>

definition DelineateMounts ::
  "(real rdarray \<Rightarrow> int \<Rightarrow> real \<Rightarrow> real \<Rightarrow> py_error + 'r)
     \<Rightarrow> real rdarray \<Rightarrow> int \<Rightarrow> real \<Rightarrow> real \<Rightarrow> py_error + 'r" where
  "DelineateMounts DelineateDepressions dem min_size min_height interval =
     (case FlipDEM dem 100 of
        Inl e \<Rightarrow> Inl e
      | Inr in_dem \<Rightarrow>
          (case get_min_max_nodata dem of
             Inl e \<Rightarrow> Inl e
           | Inr (min_elev, max_elev, nd) \<Rightarrow>
               (case ExtractSinks in_dem min_size of
                  Inl e \<Rightarrow> Inl e
                | Inr outs \<Rightarrow> DelineateDepressions (sink outs) min_size min_height interval)))"

text \<open>Flipping twice with the same delta, as the round trip of the inversion does.\<close>

definition flip_twice :: "real rdarray \<Rightarrow> real \<Rightarrow> py_error + real rdarray" where
  "flip_twice dem delta =
     (case FlipDEM dem delta of Inl e \<Rightarrow> Inl e | Inr flipped \<Rightarrow> FlipDEM flipped delta)"

section \<open>Sample grids\<close>

definition two_cells :: "real rdarray" where
  "two_cells = \<lparr>nrows = 1, ncols = 2, data = [1, 3], no_data = - 9999, cell_size = 1\<rparr>"

definition with_gap :: "real rdarray" where
  "with_gap = \<lparr>nrows = 1, ncols = 2, data = [1, - 9999], no_data = - 9999, cell_size = 1\<rparr>"

definition empty_region :: region where
  "empty_region =
     \<lparr>label = 1, area = 0, min_intensity = 0, max_intensity = 0, intensity_image = []\<rparr>"

definition one_cell_region :: region where
  "one_cell_region =
     \<lparr>label = 1, area = 1, min_intensity = 3, max_intensity = 3, intensity_image = [3]\<rparr>"

text \<open>The plain conversion \<open>{}\<close> of a float whose value is a whole number of fewer than
  seventeen digits: the digits, a point and one zero.\<close>

definition whole_float_str :: "real \<Rightarrow> string" where
  "whole_float_str x = (if x < 0 then ''-'' else []) @ str_nat (nat \<lfloor>\<bar>x\<bar>\<rfloor>) @ ''.0''"

definition square_dep :: Depression where
  "square_dep = \<lparr>id' = 1, count = 4, size' = 4, volume = Finite (5 / 2),
     meanDepth = Finite (5 / 8), maxDepth = 1, minElev = 2, bndElev = 3\<rparr>"

text \<open>
  Modelled from the spec: a \<open>DelineateDepressions\<close> that rejects an interval that is not
  positive and a negative minimum height before the sweep, as the specification of the
  sweep says, and returns the sinks it is given otherwise.  It stands for the absent
  module \<open>slicing\<close> in the examples.
\<close>

definition sweep_checks :: "real rdarray \<Rightarrow> int \<Rightarrow> real \<Rightarrow> real \<Rightarrow> py_error + real rdarray" where
  "sweep_checks sinks min_size min_height interval =
     (if interval \<le> 0 \<or> min_height < 0 then Inl ValueError else Inr sinks)"

definition all_gaps :: "real rdarray" where
  "all_gaps = \<lparr>nrows = 1, ncols = 2, data = [- 9999, - 9999], no_data = - 9999, cell_size = 1\<rparr>"

definition pit3 :: "real rdarray" where
  "pit3 = \<lparr>nrows = 3, ncols = 3, data = [5, 5, 5, 5, 1, 5, 5, 5, 5],
            no_data = - 9999, cell_size = 2\<rparr>"

definition pit3_outputs :: sink_outputs where
  "pit3_outputs =
     \<lparr>out_dem_filled = pit3\<lparr>data := [5, 5, 5, 5, 5, 5, 5, 5, 5]\<rparr>,
      out_dem_diff = pit3\<lparr>data := [0, 0, 0, 0, 4, 0, 0, 0, 0], no_data := 0\<rparr>,
      out_depth = pit3\<lparr>data := [0, 0, 0, 0, 4, 0, 0, 0, 0], no_data := 0\<rparr>,
      out_csv_file = [\<lparr>id' = 1, count = 1, size' = 4, volume = Finite 0,
                        meanDepth = Finite 0, maxDepth = 0, minElev = 1, bndElev = 1\<rparr>],
      out_region = \<lparr>nrows = 3, ncols = 3, data = [0, 0, 0, 0, 1, 0, 0, 0, 0],
                     no_data = 0, cell_size = 2\<rparr>,
      out_dem = pit3,
      sink = pit3\<lparr>data := [0, 0, 0, 0, 1, 0, 0, 0, 0], no_data := 0\<rparr>\<rparr>"

definition strip :: "real ndarray" where
  "strip = \<lparr>nrows = 1, ncols = 4, data = [2, 0, 3, 3]\<rparr>"

definition flat_depth :: "real ndarray" where
  "flat_depth = \<lparr>nrows = 2, ncols = 2, data = [0, 0, 0, 0]\<rparr>"

definition lone_cell :: "real rdarray" where
  "lone_cell = \<lparr>nrows = 1, ncols = 1, data = [5], no_data = - 100, cell_size = 1\<rparr>"

text \<open>
  The grid of five rows and five columns with the edge at 10, a ring at 5 around the
  centre and the centre at 1, for any resolution; its cells inside the edge; its
  filling, its depth field, its labels, its one region and the results of
  \<open>ExtractSinks\<close> on it.
\<close>

definition pit5 :: "real \<Rightarrow> real rdarray" where
  "pit5 resolution =
     \<lparr>nrows = 5, ncols = 5,
      data = [10, 10, 10, 10, 10,
              10,  5,  5,  5, 10,
              10,  5,  1,  5, 10,
              10,  5,  5,  5, 10,
              10, 10, 10, 10, 10],
      no_data = - 9999, cell_size = resolution\<rparr>"

definition interior_cells :: "nat list" where
  "interior_cells = [6, 7, 8, 11, 12, 13, 16, 17, 18]"

definition pit5_filled :: "real \<Rightarrow> real rdarray" where
  "pit5_filled resolution =
     \<lparr>nrows = 5, ncols = 5,
      data = [10, 10, 10, 10, 10,
              10, 10, 10, 10, 10,
              10, 10, 10, 10, 10,
              10, 10, 10, 10, 10,
              10, 10, 10, 10, 10],
      no_data = - 9999, cell_size = resolution\<rparr>"

definition pit5_diff :: "real \<Rightarrow> real rdarray" where
  "pit5_diff resolution =
     \<lparr>nrows = 5, ncols = 5,
      data = [0, 0, 0, 0, 0,
              0, 5, 5, 5, 0,
              0, 5, 9, 5, 0,
              0, 5, 5, 5, 0,
              0, 0, 0, 0, 0],
      no_data = 0, cell_size = resolution\<rparr>"

definition pit5_labels :: "nat ndarray" where
  "pit5_labels =
     \<lparr>nrows = 5, ncols = 5,
      data = [0, 0, 0, 0, 0,
              0, 1, 1, 1, 0,
              0, 1, 1, 1, 0,
              0, 1, 1, 1, 0,
              0, 0, 0, 0, 0]\<rparr>"

definition pit5_region :: region where
  "pit5_region =
     \<lparr>label = 1, area = 9, min_intensity = 1, max_intensity = 5,
      intensity_image = [5, 5, 5, 5, 1, 5, 5, 5, 5]\<rparr>"

definition pit5_outputs :: "real \<Rightarrow> sink_outputs" where
  "pit5_outputs resolution =
     \<lparr>out_dem_filled = pit5_filled resolution,
      out_dem_diff = pit5_diff resolution,
      out_depth = pit5_diff resolution,
      out_csv_file = [\<lparr>id' = 1, count = 9, size' = 9 * resolution\<^sup>2,
                        volume = Finite (4 * resolution\<^sup>2), meanDepth = Finite (4 / 9),
                        maxDepth = 4, minElev = 1, bndElev = 5\<rparr>],
      out_region = \<lparr>nrows = 5, ncols = 5, data = data pit5_labels,
                     no_data = 0, cell_size = resolution\<rparr>,
      out_dem = pit5 resolution,
      sink = \<lparr>nrows = 5, ncols = 5,
               data = [0, 0, 0, 0, 0,
                       0, 5, 5, 5, 0,
                       0, 5, 1, 5, 0,
                       0, 5, 5, 5, 0,
                       0, 0, 0, 0, 0],
               no_data = 0, cell_size = resolution\<rparr>\<rparr>"

section \<open>Properties of region grouping\<close>

text \<open>
  Claim C10: \<open>regionGroup\<close> changes the caller's buffer.  After the call, whether it
  returned or raised, every cell that was equal to the \<open>no_data\<close> argument holds 0 and
  every other cell holds what it held before.
\<close>

theorem regionGroup_mutates_buffer:
  "fst (regionGroup img_array min_size nd) =
     img_array\<lparr>data := map (\<lambda>v. if v = nd then 0 else v) (data img_array)\<rparr>"
  by (simp add: regionGroup_def Let_def split: prod.split)

section \<open>Properties of the inversion\<close>

lemma FlipDEM_clean:
  assumes ne: "data dem \<noteq> []"
    and valid: "\<forall>v\<in>set (data dem). v \<noteq> no_data dem"
    and c1: "\<forall>v\<in>set (data dem). - v + Max (set (data dem)) + delta \<noteq> - no_data dem"
  shows "FlipDEM dem delta =
     Inr (dem\<lparr>data := map (\<lambda>v. - v + Max (set (data dem)) + delta) (data dem)\<rparr>)"
proof -
  have f: "filter (\<lambda>v. v \<noteq> no_data dem) (data dem) = data dem"
    using valid by (simp add: filter_id_conv)
  have m: "map (\<lambda>v. if v = no_data dem * (- 1) then no_data dem else v)
             (map (\<lambda>v. v * (- 1) + Max (set (data dem)) + delta) (data dem))
           = map (\<lambda>v. - v + Max (set (data dem)) + delta) (data dem)"
    using c1 by (auto simp: o_def)
  show ?thesis
    unfolding FlipDEM_def Let_def f using ne m by simp
qed

lemma Max_flip:
  assumes "xs \<noteq> []"
  shows "Max (set (map (\<lambda>v. - v + a + b) xs)) = - Min (set xs) + a + (b::real)"
proof (rule Max_eqI)
  show "finite (set (map (\<lambda>v. - v + a + b) xs))" by simp
next
  fix y assume "y \<in> set (map (\<lambda>v. - v + a + b) xs)"
  then obtain v where "v \<in> set xs" "y = - v + a + b" by auto
  moreover from this have "Min (set xs) \<le> v" by simp
  ultimately show "y \<le> - Min (set xs) + a + b" by simp
next
  have "Min (set xs) \<in> set xs" using assms by (simp add: Min_in)
  then show "- Min (set xs) + a + b \<in> set (map (\<lambda>v. - v + a + b) xs)" by auto
qed

text \<open>
  Claim C3, as amended: on a grid without no-data cells, where no flipped value collides
  with the sentinel or its negation, flipping twice with the same delta does not give
  back the elevations: it adds \<open>delta - globalMin\<close> to every cell.  The second flip
  measures from the maximum of the flipped grid, which is \<open>globalMax + delta - globalMin\<close>.
\<close>

theorem flip_twice_shift:
  assumes ne: "data dem \<noteq> []"
    and valid: "\<forall>v\<in>set (data dem). v \<noteq> no_data dem"
    and c1: "\<forall>v\<in>set (data dem). - v + Max (set (data dem)) + delta \<noteq> - no_data dem"
    and c2: "\<forall>v\<in>set (data dem). - v + Max (set (data dem)) + delta \<noteq> no_data dem"
    and c3: "\<forall>v\<in>set (data dem). v + delta - Min (set (data dem)) \<noteq> - no_data dem"
  shows "flip_twice dem delta =
     Inr (dem\<lparr>data := map (\<lambda>v. v + delta - Min (set (data dem))) (data dem)\<rparr>)"
proof -
  let ?M = "Max (set (data dem))"
  let ?f = "dem\<lparr>data := map (\<lambda>v. - v + ?M + delta) (data dem)\<rparr>"
  have 1: "FlipDEM dem delta = Inr ?f"
    by (rule FlipDEM_clean [OF ne valid c1])
  have M2: "Max (set (data ?f)) = - Min (set (data dem)) + ?M + delta"
    using Max_flip [OF ne, of ?M delta] by simp
  have 2: "FlipDEM ?f delta = Inr (?f\<lparr>data := map (\<lambda>v. - v + Max (set (data ?f)) + delta) (data ?f)\<rparr>)"
  proof (rule FlipDEM_clean)
    show "data ?f \<noteq> []" using ne by simp
    show "\<forall>v\<in>set (data ?f). v \<noteq> no_data ?f" using c2 by auto
    show "\<forall>v\<in>set (data ?f). - v + Max (set (data ?f)) + delta \<noteq> - no_data ?f"
      unfolding M2 using c3 by (auto simp: algebra_simps)
  qed
  have 3: "map (\<lambda>v. - v + Max (set (data ?f)) + delta) (data ?f)
           = map (\<lambda>v. v + delta - Min (set (data dem))) (data dem)"
    unfolding M2 by (simp add: o_def algebra_simps)
  show ?thesis
    unfolding flip_twice_def 1 using 2 3 by simp
qed

theorem flip_twice_shift_witness:
  "flip_twice two_cells 100 = Inr (two_cells\<lparr>data := [100, 102]\<rparr>)"
  using flip_twice_shift [of two_cells 100]
  by (simp add: two_cells_def)

text \<open>
  Claim C3 as stated fails: the grid with the elevations 1 and 3 comes back from two
  flips with delta 100 as 100 and 102.
\<close>

theorem flip_twice_counterexample:
  "flip_twice two_cells 100 = Inr (two_cells\<lparr>data := [100, 102]\<rparr>)
   \<and> flip_twice two_cells 100 \<noteq> Inr two_cells"
  by (simp add: flip_twice_def FlipDEM_def two_cells_def Let_def)

text \<open>
  Claim C4 at a failing input: the grid holds the elevation 1 and one no-data cell
  (sentinel -9999).  The flip adds \<open>max_elev + delta\<close> before it looks for the negated
  sentinel, so the no-data cell is not found: it holds 10100 afterwards, while the
  sentinel of the output is still -9999.
\<close>

theorem FlipDEM_loses_no_data:
  "FlipDEM with_gap 100 = Inr (with_gap\<lparr>data := [100, 10100]\<rparr>)"
  by (simp add: FlipDEM_def with_gap_def Let_def)

section \<open>Properties of the attributes\<close>

lemma get_dep_props_map: "get_dep_props objects resolution = map (dep_props resolution) objects"
  by (induction objects) simp_all

text \<open>
  Claim C6, as amended: \<open>get_dep_props\<close> divides by the pixel count of every region
  without a guard, and nothing is raised: the result has one record for every region of
  the list, whose mean depth is the quotient by the pixel count.  The mean depth is a
  number exactly when the pixel count is not 0; for a pixel count of 0 the division by
  zero is performed, the mean depth is \<open>nan\<close> or an infinity and the volume is \<open>nan\<close>.
\<close>

theorem get_dep_props_unguarded:
  "length (get_dep_props objects resolution) = length objects
   \<and> (\<forall>i<length objects.
         meanDepth (get_dep_props objects resolution ! i) =
           true_divide (max_intensity (objects ! i) * area (objects ! i)
                          - sum_list (intensity_image (objects ! i))) (area (objects ! i))
         \<and> (isfinite (meanDepth (get_dep_props objects resolution ! i))
                \<longleftrightarrow> area (objects ! i) \<noteq> 0)
         \<and> (area (objects ! i) = 0 \<longrightarrow> volume (get_dep_props objects resolution ! i) = NaN))"
proof (intro conjI allI impI)
  show "length (get_dep_props objects resolution) = length objects"
    by (simp add: get_dep_props_map)
next
  fix i assume "i < length objects"
  then have nth: "get_dep_props objects resolution ! i = dep_props resolution (objects ! i)"
    by (simp add: get_dep_props_map)
  show "meanDepth (get_dep_props objects resolution ! i) =
           true_divide (max_intensity (objects ! i) * area (objects ! i)
                          - sum_list (intensity_image (objects ! i))) (area (objects ! i))"
    by (simp add: nth dep_props_def Let_def)
  show "isfinite (meanDepth (get_dep_props objects resolution ! i))
          \<longleftrightarrow> area (objects ! i) \<noteq> 0"
    by (simp add: nth dep_props_def Let_def true_divide_def)
  assume "area (objects ! i) = 0"
  then show "volume (get_dep_props objects resolution ! i) = NaN"
    by (simp add: nth dep_props_def Let_def true_divide_def)
qed

theorem get_dep_props_unguarded_witness:
  "length (get_dep_props [empty_region, one_cell_region] 1) = 2
   \<and> \<not> isfinite (meanDepth (get_dep_props [empty_region, one_cell_region] 1 ! 0))
   \<and> volume (get_dep_props [empty_region, one_cell_region] 1 ! 0) = NaN
   \<and> meanDepth (get_dep_props [empty_region, one_cell_region] 1 ! 1) = Finite 0"
proof -
  note t = get_dep_props_unguarded [of "[empty_region, one_cell_region]" 1]
  from t have len: "length (get_dep_props [empty_region, one_cell_region] 1) = 2"
    by simp
  from t have "0 < length [empty_region, one_cell_region] \<longrightarrow>
      (isfinite (meanDepth (get_dep_props [empty_region, one_cell_region] 1 ! 0))
         \<longleftrightarrow> area ([empty_region, one_cell_region] ! 0) \<noteq> 0)
      \<and> (area ([empty_region, one_cell_region] ! 0) = 0
           \<longrightarrow> volume (get_dep_props [empty_region, one_cell_region] 1 ! 0) = NaN)"
    by blast
  then have a: "\<not> isfinite (meanDepth (get_dep_props [empty_region, one_cell_region] 1 ! 0))"
    and b: "volume (get_dep_props [empty_region, one_cell_region] 1 ! 0) = NaN"
    by (simp_all add: empty_region_def)
  from t have "1 < length [empty_region, one_cell_region] \<longrightarrow>
      meanDepth (get_dep_props [empty_region, one_cell_region] 1 ! 1) =
        true_divide (max_intensity ([empty_region, one_cell_region] ! 1)
                       * area ([empty_region, one_cell_region] ! 1)
                     - sum_list (intensity_image ([empty_region, one_cell_region] ! 1)))
          (area ([empty_region, one_cell_region] ! 1))"
    by blast
  then have c: "meanDepth (get_dep_props [empty_region, one_cell_region] 1 ! 1) = Finite 0"
    by (simp add: one_cell_region_def true_divide_def)
  from len a b c show ?thesis by blast
qed

text \<open>
  Claim C6 as stated fails: for a list that holds a region with the pixel count 0 the
  quotient is taken with the divisor 0, and the record carries its result, \<open>nan\<close>.
\<close>

theorem get_dep_props_counterexample:
  "area empty_region = 0
   \<and> get_dep_props [empty_region] 1 =
       [\<lparr>id' = 1, count = 0, size' = 0, volume = NaN, meanDepth = true_divide 0 0,
         maxDepth = 0, minElev = 0, bndElev = 0\<rparr>]
   \<and> true_divide 0 0 = NaN"
  by (simp add: dep_props_def empty_region_def true_divide_def)

section \<open>Properties of sink extraction\<close>

lemma length_fold_visit:
  "fold (visit raw nd e) ns (f, r, q) = (f', r', q') \<Longrightarrow> length f' = length f"
proof (induction ns arbitrary: f r q)
  case Nil
  then show ?case by simp
next
  case (Cons n ns)
  obtain f1 r1 q1 where v: "visit raw nd e n (f, r, q) = (f1, r1, q1)"
    by (cases "visit raw nd e n (f, r, q)") auto
  then have "length f1 = length f"
    by (auto simp: visit_def split: if_splits)
  moreover from Cons.prems v have "fold (visit raw nd e) ns (f1, r1, q1) = (f', r', q')"
    by simp
  ultimately show ?case using Cons.IH by simp
qed

lemma length_flood: "length (flood h w raw nd filled resolved queue) = length filled"
proof (induction h w raw nd filled resolved queue rule: flood.induct)
  case (1 h w raw nd filled resolved)
  then show ?case by simp
next
  case (2 h w raw nd filled resolved e i queue)
  obtain f' r' q' where f: "fold (visit raw nd e) (neighbours8 h w i) (filled, resolved, queue) = (f', r', q')"
    by (cases "fold (visit raw nd e) (neighbours8 h w i) (filled, resolved, queue)") auto
  from 2 [OF f [symmetric] refl] length_fold_visit [OF f] f show ?case by simp
qed

lemma length_FillDepressions: "length (data (FillDepressions dem)) = length (data dem)"
  by (simp add: FillDepressions_def Let_def length_flood)

lemma length_ndimage_label: "length (data (fst (ndimage_label input))) = length (data input)"
  by (simp add: ndimage_label_def Let_def)

lemma bincount_Nil: "bincount xs = [] \<longleftrightarrow> xs = []"
  by (simp add: bincount_def)

lemma regionGroup_returns:
  assumes "data img_array \<noteq> []"
  shows "\<exists>label_objects nb_labels.
           snd (regionGroup img_array min_size nd) = Inr (label_objects, nb_labels)
           \<and> length (data label_objects) = length (data img_array)"
proof -
  let ?img = "img_array\<lparr>data := map (\<lambda>v. if v = nd then 0 else v) (data img_array)\<rparr>"
  obtain l1 n1 where 1: "ndimage_label (nonzero ?img) = (l1, n1)"
    by (cases "ndimage_label (nonzero ?img)") auto
  have len1: "length (data l1) = length (data img_array)"
    using length_ndimage_label [of "nonzero ?img"] 1 by (simp add: nonzero_def)
  then have ne: "bincount (data l1) \<noteq> []"
    using assms by (auto simp: bincount_Nil)
  let ?cleaned = "\<lparr>nrows = nrows l1, ncols = ncols l1,
                    data = map (\<lambda>l. (map (\<lambda>s. min_size < int s) (bincount (data l1)))[0 := False] ! l) (data l1)\<rparr>"
  obtain l2 n2 where 2: "ndimage_label ?cleaned = (l2, n2)"
    by (cases "ndimage_label ?cleaned") auto
  have len2: "length (data l2) = length (data img_array)"
    using length_ndimage_label [of ?cleaned] 2 len1 by simp
  have "snd (regionGroup img_array min_size nd) = Inr (l2, n2)"
    using 1 2 ne by (simp add: regionGroup_def Let_def)
  with len2 show ?thesis by blast
qed

lemma area_regionprops: "object \<in> set (regionprops label_image intensity) \<Longrightarrow> 0 < area object"
  by (auto simp: regionprops_def region_of_def Let_def split: if_splits)

lemma id_get_dep_props: "map id' (get_dep_props objects resolution) = map label objects"
  by (induction objects) (simp_all add: dep_props_def Let_def)

lemma map_comprehension:
  "map g (concat (map (\<lambda>l. if P l then [f l] else []) xs)) = map (\<lambda>l. g (f l)) (filter P xs)"
  by (induction xs) auto

lemma labels_regionprops: "sorted_wrt (<) (map label (regionprops label_image intensity))"
proof (cases "data label_image = []")
  case True
  then show ?thesis by (simp add: regionprops_def)
next
  case False
  then have "map label (regionprops label_image intensity) =
        filter (\<lambda>l. region_cells (data label_image) l \<noteq> [])
          [1..<Suc (Max (set (data label_image)))]"
    by (simp add: regionprops_def map_comprehension region_of_def Let_def)
  moreover have "sorted_wrt (<) [1..<Suc (Max (set (data label_image)))]"
    by (rule sorted_wrt_upt)
  ultimately show ?thesis
    by (simp only: sorted_wrt_filter)
qed

lemma ExtractSinks_eq:
  assumes "elev_range dem = Inr rng"
    and "regionGroup ((FillDepressions dem)\<lparr>data := map2 (-) (data (FillDepressions dem)) (data dem),
                                          no_data := 0\<rparr>) min_size (no_data dem)
         = (buf, Inr (lo, nb))"
  shows "ExtractSinks dem min_size =
     Inr \<lparr>out_dem_filled = FillDepressions dem,
          out_dem_diff = (FillDepressions dem)\<lparr>data := map2 (-) (data (FillDepressions dem)) (data dem),
                                               no_data := 0\<rparr>,
          out_depth = np2rdarray (buf\<lparr>data := map2 (\<lambda>l v. if l = 0 then 0 else v)
                                                 (data lo) (data buf)\<rparr>) 0 (cell_size dem),
          out_csv_file = get_dep_props (regionprops lo dem) (cell_size dem),
          out_region = np2rdarray lo 0 (cell_size dem),
          out_dem = np2rdarray
                      ((FillDepressions dem)\<lparr>data := map2 (\<lambda>l (v, f). if 0 < l then v else f)
                                                        (data lo)
                                                        (zip (data dem) (data (FillDepressions dem)))\<rparr>)
                      (no_data dem) (cell_size dem),
          sink = np2rdarray (dem\<lparr>data := map2 (\<lambda>l v. if l = 0 then 0 else v)
                                           (data lo) (data dem)\<rparr>) 0 (cell_size dem)\<rparr>"
  using assms
  by (cases rng) (simp add: ExtractSinks_def Let_def np2rdarray_def)

lemma ExtractSinks_cases:
  assumes "elev_range dem = Inr rng"
  shows "\<exists>(lo :: nat ndarray) dl filled diff depth refined.
           length (data lo) = length (data dem)
           \<and> sorted_wrt (<) (map id' dl)
           \<and> ExtractSinks dem min_size =
               Inr \<lparr>out_dem_filled = filled, out_dem_diff = diff, out_depth = depth,
                    out_csv_file = dl, out_region = np2rdarray lo 0 (cell_size dem),
                    out_dem = refined,
                    sink = np2rdarray (dem\<lparr>data := map2 (\<lambda>l v. if l = 0 then 0 else v)
                                                   (data lo) (data dem)\<rparr>) 0 (cell_size dem)\<rparr>"
proof -
  let ?diff = "(FillDepressions dem)\<lparr>data := map2 (-) (data (FillDepressions dem)) (data dem),
                                          no_data := 0\<rparr>"
  from assms have ne: "data dem \<noteq> []"
    by (auto simp: elev_range_def split: if_splits)
  then have "data ?diff \<noteq> []"
    using length_FillDepressions [of dem]
    by (cases "data dem"; cases "data (FillDepressions dem)") auto
  from regionGroup_returns [OF this, of min_size "no_data dem"]
  obtain lo nb where rg: "snd (regionGroup ?diff min_size (no_data dem)) = Inr (lo, nb)"
    and len: "length (data lo) = length (data ?diff)" by blast
  have len': "length (data lo) = length (data dem)"
    using len length_FillDepressions [of dem] by simp
  define dl where "dl = get_dep_props (regionprops lo dem) (cell_size dem)"
  have srt: "sorted_wrt (<) (map id' dl)"
    unfolding dl_def id_get_dep_props by (rule labels_regionprops)
  obtain buf where buf: "regionGroup ?diff min_size (no_data dem) = (buf, Inr (lo, nb))"
    using rg by (cases "regionGroup ?diff min_size (no_data dem)") auto
  have E: "ExtractSinks dem min_size = Inr \<lparr>out_dem_filled = FillDepressions dem,
                    out_dem_diff = ?diff,
                    out_depth = np2rdarray (buf\<lparr>data := map2 (\<lambda>l v. if l = 0 then 0 else v)
                                               (data lo) (data buf)\<rparr>) 0 (cell_size dem),
                    out_csv_file = dl,
                    out_region = np2rdarray lo 0 (cell_size dem),
                    out_dem = np2rdarray
                                ((FillDepressions dem)\<lparr>data := map2 (\<lambda>l (v, f). if 0 < l then v else f)
                                                       (data lo)
                                                       (zip (data dem) (data (FillDepressions dem)))\<rparr>) (no_data dem) (cell_size dem),
                    sink = np2rdarray
                                     (dem\<lparr>data := map2 (\<lambda>l v. if l = 0 then 0 else v)
                                                     (data lo) (data dem)\<rparr>) 0 (cell_size dem)\<rparr>"
    using assms buf
    by (cases rng) (simp add: ExtractSinks_def Let_def np2rdarray_def dl_def)
  show ?thesis
    by (intro exI conjI) (rule len' srt E)+
qed

lemma elev_range_isl: "isl (elev_range dem) \<longleftrightarrow> \<not> (\<exists>v\<in>set (data dem). 0 < v)"
  by (auto simp: elev_range_def Let_def filter_empty_conv)

lemma elev_range_error: "elev_range dem = Inl e \<Longrightarrow> e = ValueError"
  by (auto simp: elev_range_def Let_def split: if_splits)

lemma ExtractSinks_isl: "isl (ExtractSinks dem min_size) \<longleftrightarrow> isl (elev_range dem)"
proof (cases "elev_range dem")
  case (Inl e)
  then show ?thesis by (simp add: ExtractSinks_def)
next
  case (Inr rng)
  from ExtractSinks_cases [OF this, of min_size] Inr show ?thesis by auto
qed

lemma ExtractSinks_Inr:
  assumes "ExtractSinks dem min_size = Inr outs"
  shows "\<exists>lo :: nat ndarray. length (data lo) = length (data dem)
            \<and> out_region outs = np2rdarray lo 0 (cell_size dem)
            \<and> sink outs = np2rdarray (dem\<lparr>data := map2 (\<lambda>l v. if l = 0 then 0 else v)
                                                   (data lo) (data dem)\<rparr>) 0 (cell_size dem)
            \<and> sorted_wrt (<) (map id' (out_csv_file outs))"
proof -
  from assms obtain rng where "elev_range dem = Inr rng"
    by (cases "elev_range dem") (auto simp: ExtractSinks_def)
  from ExtractSinks_cases [OF this, of min_size]
  obtain lo :: "nat ndarray" and dl filled diff depth refined
    where len: "length (data lo) = length (data dem)"
    and srt: "sorted_wrt (<) (map id' dl)"
    and ex: "ExtractSinks dem min_size =
               Inr \<lparr>out_dem_filled = filled, out_dem_diff = diff, out_depth = depth,
                    out_csv_file = dl, out_region = np2rdarray lo 0 (cell_size dem),
                    out_dem = refined,
                    sink = np2rdarray (dem\<lparr>data := map2 (\<lambda>l v. if l = 0 then 0 else v)
                                                   (data lo) (data dem)\<rparr>) 0 (cell_size dem)\<rparr>"
    by blast
  from ex assms have "out_csv_file outs = dl"
    and "out_region outs = np2rdarray lo 0 (cell_size dem)"
    and "sink outs = np2rdarray (dem\<lparr>data := map2 (\<lambda>l v. if l = 0 then 0 else v)
                                                   (data lo) (data dem)\<rparr>) 0 (cell_size dem)"
    by auto
  with len srt show ?thesis by blast
qed

text \<open>
  Claim C9: when \<open>ExtractSinks\<close> returns, the grid it returns has the shape of the
  input, holds the raw elevation of the input at every cell whose final label is
  positive and 0 at every cell whose final label is 0, and has the no-data sentinel 0.
\<close>

theorem ExtractSinks_sink:
  assumes "ExtractSinks dem min_size = Inr outs"
  shows "length (data (sink outs)) = length (data dem)
       \<and> length (data (out_region outs)) = length (data dem)
       \<and> (\<forall>i<length (data dem).
             data (sink outs) ! i = (if 0 < data (out_region outs) ! i then data dem ! i else 0))
       \<and> no_data (sink outs) = 0"
proof -
  from ExtractSinks_Inr [OF assms]
  obtain lo :: "nat ndarray" where len: "length (data lo) = length (data dem)"
    and reg: "out_region outs = np2rdarray lo 0 (cell_size dem)"
    and snk: "sink outs = np2rdarray (dem\<lparr>data := map2 (\<lambda>l v. if l = 0 then 0 else v)
                                                     (data lo) (data dem)\<rparr>) 0 (cell_size dem)"
    by blast
  show ?thesis
    unfolding reg snk using len by (simp add: np2rdarray_def)
qed

theorem ExtractSinks_sink_witness:
  "ExtractSinks pit3 0 = Inr pit3_outputs
   \<and> data (sink pit3_outputs) ! 4 = data pit3 ! 4
   \<and> data (sink pit3_outputs) ! 0 = 0
   \<and> no_data (sink pit3_outputs) = 0"
proof -
  have h: "ExtractSinks pit3 0 = Inr pit3_outputs"
    by code_simp
  from ExtractSinks_sink [OF h] h show ?thesis
    by (simp add: pit3_def pit3_outputs_def)
qed

lemma FlipDEM_Inr:
  assumes "\<not> (\<forall>v\<in>set (data dem). v = no_data dem)"
  shows "\<exists>flipped. FlipDEM dem delta = Inr flipped"
    and "\<exists>rng. get_min_max_nodata dem = Inr rng"
proof -
  from assms have "filter (\<lambda>v. v \<noteq> no_data dem) (data dem) \<noteq> []"
    by (simp add: filter_empty_conv)
  then show "\<exists>flipped. FlipDEM dem delta = Inr flipped"
    and "\<exists>rng. get_min_max_nodata dem = Inr rng"
    by (simp_all add: FlipDEM_def get_min_max_nodata_def Let_def)
qed

lemma ExtractSinks_error: "isl (ExtractSinks dem min_size) \<Longrightarrow> ExtractSinks dem min_size = Inl ValueError"
proof -
  assume "isl (ExtractSinks dem min_size)"
  then have "isl (elev_range dem)" by (simp only: ExtractSinks_isl)
  then obtain e where e: "elev_range dem = Inl e" by (cases "elev_range dem") auto
  with elev_range_error have "e = ValueError" by blast
  with e show ?thesis by (simp add: ExtractSinks_def)
qed

text \<open>
  Claim C2, as amended: the entry points check neither \<open>min_size\<close> nor \<open>min_height\<close>
  nor \<open>interval\<close>, and \<open>ExtractSinks\<close> does not look at the sentinel either.  Whether
  \<open>ExtractSinks\<close> fails depends on the cells alone, not on \<open>min_size\<close> nor on the
  sentinel: it fails exactly when the DEM has no cell greater than 0 (an empty grid, or
  an all-no-data grid with a sentinel that is not positive), and the failure is the
  \<open>ValueError\<close> of the elevation statistics, which precede the filling.
  \<open>DelineateMounts\<close> fails with \<open>ValueError\<close> in \<open>FlipDEM\<close>, its first step, when every
  cell equals the sentinel, and in \<open>ExtractSinks\<close> when the flipped grid has no cell
  greater than 0; in every other case the sinks of the flipped grid are extracted and
  \<open>min_height\<close> and \<open>interval\<close> are handed unchecked to \<open>DelineateDepressions\<close>.
\<close>

theorem entry_points_rejection:
  "(isl (ExtractSinks dem min_size) \<longleftrightarrow> \<not> (\<exists>v\<in>set (data dem). 0 < v))
   \<and> (isl (ExtractSinks (dem\<lparr>no_data := nd\<rparr>) min_size') \<longleftrightarrow> isl (ExtractSinks dem min_size))
   \<and> (isl (ExtractSinks dem min_size) \<longrightarrow>
        ExtractSinks dem min_size = Inl ValueError \<and> elev_range dem = Inl ValueError)
   \<and> ((\<forall>v\<in>set (data dem). v = no_data dem) \<longrightarrow>
        FlipDEM dem 100 = Inl ValueError
        \<and> DelineateMounts DelineateDepressions dem min_size min_height interval = Inl ValueError)
   \<and> (\<not> (\<forall>v\<in>set (data dem). v = no_data dem) \<longrightarrow>
        (\<exists>flipped. FlipDEM dem 100 = Inr flipped
           \<and> (\<not> (\<exists>v\<in>set (data flipped). 0 < v) \<longrightarrow>
                DelineateMounts DelineateDepressions dem min_size min_height interval
                  = Inl ValueError)
           \<and> ((\<exists>v\<in>set (data flipped). 0 < v) \<longrightarrow>
                (\<exists>outs. ExtractSinks flipped min_size = Inr outs
                   \<and> DelineateMounts DelineateDepressions dem min_size min_height interval
                       = DelineateDepressions (sink outs) min_size min_height interval))))"
proof (intro conjI impI)
  show "isl (ExtractSinks dem min_size) \<longleftrightarrow> \<not> (\<exists>v\<in>set (data dem). 0 < v)"
    by (simp only: ExtractSinks_isl elev_range_isl)
next
  have "data (dem\<lparr>no_data := nd\<rparr>) = data dem" by simp
  then show "isl (ExtractSinks (dem\<lparr>no_data := nd\<rparr>) min_size') \<longleftrightarrow> isl (ExtractSinks dem min_size)"
    by (simp only: ExtractSinks_isl elev_range_isl)
next
  assume "isl (ExtractSinks dem min_size)"
  then show "ExtractSinks dem min_size = Inl ValueError"
    by (rule ExtractSinks_error)
next
  assume "isl (ExtractSinks dem min_size)"
  then have "isl (elev_range dem)" by (simp only: ExtractSinks_isl)
  then obtain e where e: "elev_range dem = Inl e" by (cases "elev_range dem") auto
  with elev_range_error have "e = ValueError" by blast
  with e show "elev_range dem = Inl ValueError" by simp
next
  assume "\<forall>v\<in>set (data dem). v = no_data dem"
  then have "filter (\<lambda>v. v \<noteq> no_data dem) (data dem) = []"
    by (simp add: filter_empty_conv)
  then show "FlipDEM dem 100 = Inl ValueError"
    by (simp add: FlipDEM_def)
  then show "DelineateMounts DelineateDepressions dem min_size min_height interval = Inl ValueError"
    by (simp add: DelineateMounts_def)
next
  assume valid: "\<not> (\<forall>v\<in>set (data dem). v = no_data dem)"
  from FlipDEM_Inr(1) [OF valid, of 100] FlipDEM_Inr(2) [OF valid]
  obtain flipped rng where f: "FlipDEM dem 100 = Inr flipped"
    and g: "get_min_max_nodata dem = Inr rng" by blast
  have dm: "DelineateMounts DelineateDepressions dem min_size min_height interval =
      (case ExtractSinks flipped min_size of
         Inl e \<Rightarrow> Inl e
       | Inr outs \<Rightarrow> DelineateDepressions (sink outs) min_size min_height interval)"
    using f g by (cases rng) (simp add: DelineateMounts_def)
  have a: "DelineateMounts DelineateDepressions dem min_size min_height interval = Inl ValueError"
    if "\<not> (\<exists>v\<in>set (data flipped). 0 < v)"
  proof -
    from that have "isl (ExtractSinks flipped min_size)"
      by (simp add: ExtractSinks_isl elev_range_isl)
    then have "ExtractSinks flipped min_size = Inl ValueError"
      by (rule ExtractSinks_error)
    with dm show ?thesis by simp
  qed
  have b: "\<exists>outs. ExtractSinks flipped min_size = Inr outs
             \<and> DelineateMounts DelineateDepressions dem min_size min_height interval
                 = DelineateDepressions (sink outs) min_size min_height interval"
    if "\<exists>v\<in>set (data flipped). 0 < v"
  proof -
    from that have "\<not> isl (ExtractSinks flipped min_size)"
      by (simp add: ExtractSinks_isl elev_range_isl)
    then obtain outs where "ExtractSinks flipped min_size = Inr outs"
      by (cases "ExtractSinks flipped min_size") auto
    with dm show ?thesis by simp
  qed
  from f a b
  show "\<exists>flipped. FlipDEM dem 100 = Inr flipped
           \<and> (\<not> (\<exists>v\<in>set (data flipped). 0 < v) \<longrightarrow>
                DelineateMounts DelineateDepressions dem min_size min_height interval
                  = Inl ValueError)
           \<and> ((\<exists>v\<in>set (data flipped). 0 < v) \<longrightarrow>
                (\<exists>outs. ExtractSinks flipped min_size = Inr outs
                   \<and> DelineateMounts DelineateDepressions dem min_size min_height interval
                       = DelineateDepressions (sink outs) min_size min_height interval))"
    by blast
qed

theorem entry_points_rejection_witness:
  "\<not> isl (ExtractSinks pit3 0)
   \<and> ExtractSinks all_gaps 0 = Inl ValueError
   \<and> DelineateMounts sweep_checks all_gaps 0 0 1 = Inl ValueError
   \<and> DelineateMounts sweep_checks lone_cell 0 0 1 = Inl ValueError
   \<and> \<not> isl (DelineateMounts sweep_checks pit3 0 0 1)
   \<and> DelineateMounts sweep_checks pit3 0 (- 1) 0 = Inl ValueError"
proof -
  note a = entry_points_rejection [where dem = pit3 and min_size = 0
             and DelineateDepressions = sweep_checks and min_height = "- 1" and interval = 0]
  note a' = entry_points_rejection [where dem = pit3 and min_size = 0
             and DelineateDepressions = sweep_checks and min_height = 0 and interval = 1]
  note b = entry_points_rejection [where dem = all_gaps and min_size = 0
             and DelineateDepressions = sweep_checks and min_height = 0 and interval = 1]
  note c = entry_points_rejection [where dem = lone_cell and min_size = 0
             and DelineateDepressions = sweep_checks and min_height = 0 and interval = 1]
  have 1: "\<not> isl (ExtractSinks pit3 0)"
    using a by (simp add: pit3_def)
  have 2: "ExtractSinks all_gaps 0 = Inl ValueError"
    using b by (simp add: all_gaps_def)
  have 3: "DelineateMounts sweep_checks all_gaps 0 0 1 = Inl ValueError"
    using b by (simp add: all_gaps_def)
  have fc: "FlipDEM lone_cell 100 = Inr (lone_cell\<lparr>data := [- 100]\<rparr>)"
    by (simp add: FlipDEM_def lone_cell_def Let_def)
  have nc: "\<not> (\<forall>v\<in>set (data lone_cell). v = no_data lone_cell)"
    by (simp add: lone_cell_def)
  from c nc fc have 4: "DelineateMounts sweep_checks lone_cell 0 0 1 = Inl ValueError"
    by (simp add: lone_cell_def)
  have f: "FlipDEM pit3 100 = Inr (pit3\<lparr>data := [100, 100, 100, 100, 104, 100, 100, 100, 100]\<rparr>)"
    by (simp add: FlipDEM_def pit3_def Let_def)
  have np: "\<not> (\<forall>v\<in>set (data pit3). v = no_data pit3)"
    by (simp add: pit3_def)
  have fp: "\<exists>v\<in>set (data fl). 0 < v" if "FlipDEM pit3 100 = Inr fl" for fl
    using that f by (auto simp: pit3_def)
  from a np obtain fl where fl: "FlipDEM pit3 100 = Inr fl"
    and "(\<exists>v\<in>set (data fl). 0 < v) \<longrightarrow>
           (\<exists>outs. ExtractSinks fl 0 = Inr outs
              \<and> DelineateMounts sweep_checks pit3 0 (- 1) 0 = sweep_checks (sink outs) 0 (- 1) 0)"
    by blast
  with fp [OF fl] have 5: "DelineateMounts sweep_checks pit3 0 (- 1) 0 = Inl ValueError"
    by (auto simp: sweep_checks_def)
  from a' np obtain fl' where fl': "FlipDEM pit3 100 = Inr fl'"
    and "(\<exists>v\<in>set (data fl'). 0 < v) \<longrightarrow>
           (\<exists>outs. ExtractSinks fl' 0 = Inr outs
              \<and> DelineateMounts sweep_checks pit3 0 0 1 = sweep_checks (sink outs) 0 0 1)"
    by blast
  with fp [OF fl'] have 6: "\<not> isl (DelineateMounts sweep_checks pit3 0 0 1)"
    by (auto simp: sweep_checks_def)
  from 1 2 3 4 5 6 show ?thesis by blast
qed

text \<open>
  Claim C2 as stated fails: with \<open>min_size = 0\<close> and with \<open>min_size = -1\<close> the pipeline
  runs on the 3 by 3 grid with one pit and returns its results.
\<close>

theorem entry_points_counterexample:
  "ExtractSinks pit3 0 = Inr pit3_outputs \<and> \<not> isl (ExtractSinks pit3 (- 1))"
  by code_simp

section \<open>Connected components and labels\<close>

lemma set_fg_edges:
  "set (fg_edges w fg) = {(i, j). i \<in> set fg \<and> j \<in> set fg \<and> adjacent4 w i j}"
  by (auto simp: fg_edges_def)

lemma adjacent4_sym: "adjacent4 w i j \<Longrightarrow> adjacent4 w j i"
  by (auto simp: adjacent4_def)

lemma sym_fg_edges: "sym (set (fg_edges w fg))"
  by (auto simp: set_fg_edges sym_def adjacent4_sym)

lemma connected4_refl: "connected4 w fg i i"
  by (simp add: connected4_def)

lemma connected4_sym: "connected4 w fg i j \<Longrightarrow> connected4 w fg j i"
  using sym_trancl [OF sym_fg_edges, of w fg]
  by (auto simp: connected4_def sym_def)

lemma connected4_trans:
  "connected4 w fg i j \<Longrightarrow> connected4 w fg j k \<Longrightarrow> connected4 w fg i k"
  by (auto simp: connected4_def intro: trancl_trans)

lemma trancl_fg_edges_in: "(i, j) \<in> trancl (set (fg_edges w fg)) \<Longrightarrow> i \<in> set fg \<and> j \<in> set fg"
  by (induction rule: trancl.induct) (auto simp: set_fg_edges)

lemma connected4_in_fg: "connected4 w fg i j \<Longrightarrow> i \<in> set fg \<Longrightarrow> j \<in> set fg"
  using trancl_fg_edges_in [of i j w fg] by (auto simp: connected4_def)

lemma component_cong:
  "connected4 w fg i j \<Longrightarrow> component w fg i = component w fg j"
  unfolding component_def
  by (rule filter_cong) (auto intro: connected4_trans connected4_sym)

lemma set_component: "set (component w fg i) = {j \<in> set fg. connected4 w fg i j}"
  by (auto simp: component_def)

lemma component_root_eq:
  "connected4 w fg i j \<Longrightarrow> component_root w fg i = component_root w fg j"
  by (simp add: component_root_def component_cong)

lemma component_root_in:
  assumes "i \<in> set fg"
  shows "component_root w fg i \<in> set fg" and "connected4 w fg i (component_root w fg i)"
proof -
  have "i \<in> set (component w fg i)"
    using assms by (simp add: set_component connected4_refl)
  then have "set (component w fg i) \<noteq> {}" by auto
  then have "Min (set (component w fg i)) \<in> set (component w fg i)"
    by (intro Min_in) simp_all
  then show "component_root w fg i \<in> set fg" and "connected4 w fg i (component_root w fg i)"
    by (simp_all add: component_root_def set_component)
qed

lemma component_root_le:
  "j \<in> set fg \<Longrightarrow> connected4 w fg i j \<Longrightarrow> component_root w fg i \<le> j"
  by (simp add: component_root_def set_component)

lemma component_root_iff:
  assumes "i \<in> set fg" and "j \<in> set fg"
  shows "component_root w fg i = component_root w fg j \<longleftrightarrow> connected4 w fg i j"
proof
  assume e: "component_root w fg i = component_root w fg j"
  have "connected4 w fg i (component_root w fg i)"
    by (rule component_root_in [OF assms(1)])
  moreover have "connected4 w fg (component_root w fg j) j"
    by (rule connected4_sym) (rule component_root_in [OF assms(2)])
  ultimately show "connected4 w fg i j"
    using e by (auto intro: connected4_trans)
next
  assume "connected4 w fg i j"
  then show "component_root w fg i = component_root w fg j"
    by (rule component_root_eq)
qed

lemma component_root_idem:
  assumes "i \<in> set fg"
  shows "component_root w fg (component_root w fg i) = component_root w fg i"
  using component_root_eq [OF component_root_in(2) [OF assms]] by simp

lemma root_in_roots: "i \<in> set fg \<Longrightarrow> component_root w fg i \<in> set (roots w fg)"
  by (simp add: roots_def component_root_in(1) component_root_idem)

lemma roots_subset: "r \<in> set (roots w fg) \<Longrightarrow> r \<in> set fg \<and> component_root w fg r = r"
  by (simp add: roots_def)

lemma length_filter_mono:
  "(\<And>x. x \<in> set xs \<Longrightarrow> P x \<Longrightarrow> Q x) \<Longrightarrow> length (filter P xs) \<le> length (filter Q xs)"
proof (induction xs)
  case Nil
  then show ?case by simp
next
  case (Cons y ys)
  then have "length (filter P ys) \<le> length (filter Q ys)" by simp
  with Cons.prems [of y] show ?case by auto
qed

lemma length_filter_less:
  assumes "\<And>x. x \<in> set xs \<Longrightarrow> P x \<Longrightarrow> Q x" and "x \<in> set xs" and "Q x" and "\<not> P x"
  shows "length (filter P xs) < length (filter Q xs)"
  using assms
proof (induction xs)
  case Nil
  then show ?case by simp
next
  case (Cons y ys)
  have le: "length (filter P ys) \<le> length (filter Q ys)"
    by (rule length_filter_mono) (simp add: Cons.prems(1))
  show ?case
  proof (cases "x = y")
    case True
    with Cons.prems le show ?thesis by auto
  next
    case False
    with Cons.prems have "x \<in> set ys" by simp
    with Cons.IH Cons.prems have "length (filter P ys) < length (filter Q ys)" by auto
    with Cons.prems(1) [of y] show ?thesis by auto
  qed
qed

lemma rank_less: "r1 \<in> set rs \<Longrightarrow> r2 \<in> set rs \<Longrightarrow> r1 < r2 \<Longrightarrow> rank rs r1 < rank rs r2"
  unfolding rank_def by (rule length_filter_less [where x = r2]) auto

lemma rank_inj: "r1 \<in> set rs \<Longrightarrow> r2 \<in> set rs \<Longrightarrow> rank rs r1 = rank rs r2 \<Longrightarrow> r1 = r2"
  using rank_less [of r1 rs r2] rank_less [of r2 rs r1]
  by (cases r1 r2 rule: linorder_cases) auto

lemma rank_bounds: "r \<in> set rs \<Longrightarrow> 1 \<le> rank rs r \<and> rank rs r \<le> length rs"
  unfolding rank_def
  by (auto simp: Suc_le_eq filter_empty_conv)

lemma rank_surj:
  assumes "distinct rs" and "1 \<le> l" and "l \<le> length rs"
  shows "\<exists>r\<in>set rs. rank rs r = l"
proof -
  have inj: "inj_on (rank rs) (set rs)"
    by (auto simp: inj_on_def dest: rank_inj)
  have sub: "rank rs ` set rs \<subseteq> {1..length rs}"
    using rank_bounds by auto
  have "card (rank rs ` set rs) = length rs"
    using inj assms(1) by (simp add: card_image distinct_card)
  then have "rank rs ` set rs = {1..length rs}"
    using sub by (intro card_subset_eq) simp_all
  moreover have "l \<in> {1..length rs}"
    using assms(2,3) by simp
  ultimately have "l \<in> rank rs ` set rs" by simp
  then show ?thesis by auto
qed

lemma set_foreground: "set (foreground bs) = {i. i < length bs \<and> bs ! i}"
  by (auto simp: foreground_def)

lemma distinct_foreground: "distinct (foreground bs)"
  by (simp add: foreground_def)

lemma distinct_roots: "distinct fg \<Longrightarrow> distinct (roots w fg)"
  by (simp add: roots_def)

lemma label_of_pos: "i \<in> set fg \<Longrightarrow> 0 < label_of w fg i"
  using rank_bounds [OF root_in_roots, of i fg w] by (simp add: label_of_def)

lemma label_of_zero_iff: "label_of w fg i = 0 \<longleftrightarrow> i \<notin> set fg"
  using label_of_pos [of i fg w] by (auto simp: label_of_def)

lemma label_of_le: "label_of w fg i \<le> length (roots w fg)"
  by (simp add: label_of_def rank_def)

lemma label_of_eq_iff:
  assumes "i \<in> set fg" and "j \<in> set fg"
  shows "label_of w fg i = label_of w fg j \<longleftrightarrow> connected4 w fg i j"
proof -
  have "label_of w fg i = label_of w fg j \<longleftrightarrow> component_root w fg i = component_root w fg j"
    using assms rank_inj [OF root_in_roots [OF assms(1), of w] root_in_roots [OF assms(2), of w]]
    by (auto simp: label_of_def)
  then show ?thesis
    by (simp add: component_root_iff [OF assms])
qed

lemma label_of_surj:
  assumes "distinct fg" and "1 \<le> l" and "l \<le> length (roots w fg)"
  shows "\<exists>i\<in>set fg. label_of w fg i = l"
proof -
  from rank_surj [OF distinct_roots [OF assms(1)] assms(2,3)]
  obtain r where r: "r \<in> set (roots w fg)" and l: "rank (roots w fg) r = l" by blast
  from roots_subset [OF r] have "r \<in> set fg" and "component_root w fg r = r" by simp_all
  with l have "label_of w fg r = l" by (simp add: label_of_def)
  with \<open>r \<in> set fg\<close> show ?thesis by blast
qed

lemma count_list_map_upt:
  "count_list (map f [0..<n]) v = card {k. k < n \<and> f k = v}"
proof (induction n)
  case 0
  then show ?case by simp
next
  case (Suc n)
  have split: "{k. k < Suc n \<and> f k = v} =
               (if f n = v then insert n {k. k < n \<and> f k = v} else {k. k < n \<and> f k = v})"
    by (auto simp: less_Suc_eq)
  have fin: "finite {k. k < n \<and> f k = v}" by simp
  have notin: "n \<notin> {k. k < n \<and> f k = v}" by simp
  show ?case
    unfolding split using Suc fin notin by simp
qed

lemma footprint_component:
  assumes "set fg \<subseteq> {..<n}" and "i \<in> set fg"
  shows "{k. k < n \<and> label_of w fg k = label_of w fg i} = set (component w fg i)"
proof -
  have "label_of w fg k = label_of w fg i \<longleftrightarrow> k \<in> set fg \<and> connected4 w fg i k" for k
  proof (cases "k \<in> set fg")
    case True
    with label_of_eq_iff [OF assms(2) True, of w] show ?thesis by auto
  next
    case False
    then have "label_of w fg k = 0" by (simp add: label_of_zero_iff)
    with label_of_pos [OF assms(2), of w] False show ?thesis by simp
  qed
  with assms(1) show ?thesis
    by (auto simp: set_component)
qed

lemma count_label:
  assumes "set fg \<subseteq> {..<n}" and "distinct fg" and "i \<in> set fg"
  shows "count_list (map (label_of w fg) [0..<n]) (label_of w fg i) = length (component w fg i)"
proof -
  have "distinct (component w fg i)"
    using assms(2) by (simp add: component_def)
  then have "length (component w fg i) = card (set (component w fg i))"
    by (simp add: distinct_card)
  then show ?thesis
    by (simp add: count_list_map_upt footprint_component [OF assms(1,3)])
qed

lemma edges_mono: "set fg2 \<subseteq> set fg1 \<Longrightarrow> set (fg_edges w fg2) \<subseteq> set (fg_edges w fg1)"
  by (auto simp: set_fg_edges)

lemma components_kept:
  assumes sub: "set fg2 \<subseteq> set fg1"
    and closed: "\<And>i j. i \<in> set fg2 \<Longrightarrow> connected4 w fg1 i j \<Longrightarrow> j \<in> set fg2"
    and i: "i \<in> set fg2"
  shows "connected4 w fg2 i j \<longleftrightarrow> connected4 w fg1 i j"
proof
  assume "connected4 w fg2 i j"
  then show "connected4 w fg1 i j"
    using trancl_mono [OF _ edges_mono [OF sub, of w], of "(i, j)"]
    by (auto simp: connected4_def)
next
  assume c: "connected4 w fg1 i j"
  show "connected4 w fg2 i j"
  proof (cases "i = j")
    case True
    then show ?thesis by (simp add: connected4_refl)
  next
    case False
    with c have "(i, j) \<in> trancl (set (fg_edges w fg1))"
      by (simp add: connected4_def)
    then have "(i, j) \<in> trancl (set (fg_edges w fg2))"
    proof (induction rule: trancl_induct)
      case (base y)
      then have "connected4 w fg1 i y" by (auto simp: connected4_def)
      then have "y \<in> set fg2" by (rule closed [OF i])
      with base i have "(i, y) \<in> set (fg_edges w fg2)"
        by (simp add: set_fg_edges)
      then show ?case by blast
    next
      case (step y z)
      from step.hyps(1) have iy: "connected4 w fg1 i y" by (simp add: connected4_def)
      then have y: "y \<in> set fg2" by (rule closed [OF i])
      from step.hyps(2) have "connected4 w fg1 y z" by (auto simp: connected4_def)
      with iy have "connected4 w fg1 i z" by (rule connected4_trans)
      then have "z \<in> set fg2" by (rule closed [OF i])
      with y step.hyps(2) have "(y, z) \<in> set (fg_edges w fg2)"
        by (simp add: set_fg_edges)
      with step.IH show ?case by (rule trancl_into_trancl)
    qed
    then show ?thesis by (simp add: connected4_def)
  qed
qed

lemma component_kept:
  assumes sub: "set fg2 \<subseteq> set fg1"
    and closed: "\<And>i j. i \<in> set fg2 \<Longrightarrow> connected4 w fg1 i j \<Longrightarrow> j \<in> set fg2"
    and i: "i \<in> set fg2"
  shows "set (component w fg2 i) = set (component w fg1 i)"
proof -
  have "connected4 w fg2 i j \<longleftrightarrow> connected4 w fg1 i j" for j
    by (rule components_kept [OF sub closed i])
  moreover have "connected4 w fg1 i j \<Longrightarrow> j \<in> set fg2" for j
    by (rule closed [OF i])
  ultimately show ?thesis
    using sub by (auto simp: set_component)
qed

lemma foreground_zeroed:
  "foreground (map (\<lambda>v. v \<noteq> 0) (map (\<lambda>v. if v = nd then 0 else v) xs))
     = foreground (map (\<lambda>v. v \<noteq> nd \<and> v \<noteq> (0::real)) xs)"
proof -
  have "(\<lambda>v. (if v = nd then 0 else v) \<noteq> 0) = (\<lambda>v. v \<noteq> nd \<and> v \<noteq> (0::real))"
    by auto
  then show ?thesis by (simp add: o_def)
qed

lemma foreground_upper: "i \<in> set (foreground bs) \<Longrightarrow> i < length bs"
  by (simp add: set_foreground)

lemma bincount_nth:
  assumes "l \<in> set xs"
  shows "l < length (bincount xs)" and "bincount xs ! l = count_list xs l"
proof -
  from assms have ne: "xs \<noteq> []" by auto
  from assms have le: "l \<le> Max (set xs)" by simp
  then show "l < length (bincount xs)"
    using ne by (simp add: bincount_def)
  have "l < Suc (Max (set xs))" using le by simp
  then have "map (count_list xs) [0..<Suc (Max (set xs))] ! l = count_list xs l"
    by (simp only: nth_map_upt) simp
  then show "bincount xs ! l = count_list xs l"
    using ne by (simp add: bincount_def)
qed

lemma cleaned_foreground:
  assumes fg: "set fg \<subseteq> {..<n}" and d: "distinct fg" and sorted: "fg = filter (\<lambda>i. i \<in> set fg) [0..<n]"
    and L_def: "L = map (label_of w fg) [0..<n]"
  shows "foreground (map (\<lambda>l. (map (\<lambda>s. min_size < int s) (bincount L))[0 := False] ! l) L)
           = kept_cells w fg min_size"
proof -
  let ?ms = "(map (\<lambda>s. min_size < int s) (bincount L))[0 := False]"
  have len: "length L = n" by (simp add: L_def)
  have key: "?ms ! (L ! i) \<longleftrightarrow> i \<in> set fg \<and> min_size < int (length (component w fg i))"
    if i: "i < n" for i
  proof (cases "i \<in> set fg")
    case False
    then have z: "L ! i = 0" using i by (simp add: L_def label_of_zero_iff)
    have "L \<noteq> []" using i len by auto
    then have "bincount L \<noteq> []" by (simp add: bincount_def)
    then have "?ms ! 0 = False" by simp
    with z False show ?thesis by simp
  next
    case True
    have Li: "L ! i = label_of w fg i" using i by (simp add: L_def)
    have pos: "L ! i \<noteq> 0" using True by (simp add: Li label_of_zero_iff)
    have mem: "L ! i \<in> set L" using i len by simp
    from bincount_nth [OF mem] have lt: "L ! i < length (bincount L)"
      and v: "bincount L ! (L ! i) = count_list L (L ! i)" by simp_all
    have "count_list (map (label_of w fg) [0..<n]) (label_of w fg i) = length (component w fg i)"
      by (rule count_label [OF fg d True])
    then have "count_list L (L ! i) = length (component w fg i)"
      by (simp only: Li L_def [symmetric])
    with v lt pos True show ?thesis by simp
  qed
  have "foreground (map (\<lambda>l. ?ms ! l) L) = filter (\<lambda>i. ?ms ! (L ! i)) [0..<n]"
    unfolding foreground_def using len by (auto intro: filter_cong)
  also have "\<dots> = filter (\<lambda>i. i \<in> set fg \<and> min_size < int (length (component w fg i))) [0..<n]"
    by (rule filter_cong) (simp_all add: key)
  also have "\<dots> = filter (\<lambda>i. min_size < int (length (component w fg i)))
                     (filter (\<lambda>i. i \<in> set fg) [0..<n])"
    by (simp add: conj_commute)
  also have "\<dots> = kept_cells w fg min_size"
    using sorted by (simp add: kept_cells_def)
  finally show ?thesis .
qed

lemma foreground_facts:
  "set (foreground bs) \<subseteq> {..<length bs}"
  "foreground bs = filter (\<lambda>i. i \<in> set (foreground bs)) [0..<length bs]"
proof -
  show "set (foreground bs) \<subseteq> {..<length bs}" by (auto simp: set_foreground)
  show "foreground bs = filter (\<lambda>i. i \<in> set (foreground bs)) [0..<length bs]"
    unfolding foreground_def by (rule filter_cong) auto
qed

lemma regionGroup_Inr:
  assumes "snd (regionGroup img_array min_size nd) = Inr (labels, nb)"
  shows "data labels = map (label_of (ncols img_array)
                             (kept_cells (ncols img_array) (depth_mask img_array nd) min_size))
                         [0..<length (data img_array)]"
    and "nb = length (roots (ncols img_array)
                        (kept_cells (ncols img_array) (depth_mask img_array nd) min_size))"
proof -
  let ?w = "ncols img_array" and ?n = "length (data img_array)"
  let ?fg = "depth_mask img_array nd"
  let ?L = "map (label_of ?w ?fg) [0..<?n]"
  have fg: "foreground (map (\<lambda>v. v \<noteq> 0) (map (\<lambda>v. if v = nd then 0 else v) (data img_array))) = ?fg"
    by (simp only: foreground_zeroed depth_mask_def)
  have facts: "set ?fg \<subseteq> {..<?n}" "?fg = filter (\<lambda>i. i \<in> set ?fg) [0..<?n]"
    using foreground_facts [of "map (\<lambda>v. v \<noteq> nd \<and> v \<noteq> 0) (data img_array)"]
    by (simp_all add: depth_mask_def)
  have d: "distinct ?fg" by (simp add: depth_mask_def distinct_foreground)
  have cl: "foreground (map (\<lambda>l. (map (\<lambda>s. min_size < int s) (bincount ?L))[0 := False] ! l) ?L)
              = kept_cells ?w ?fg min_size"
    by (rule cleaned_foreground [OF facts(1) d facts(2) refl])
  from assms have "data labels = map (label_of ?w (kept_cells ?w ?fg min_size)) [0..<?n]
                   \<and> nb = length (roots ?w (kept_cells ?w ?fg min_size))"
    by (auto simp: regionGroup_def ndimage_label_def nonzero_def Let_def fg cl
          simp del: map_map split: if_splits)
  then show "data labels = map (label_of ?w (kept_cells ?w ?fg min_size)) [0..<?n]"
    and "nb = length (roots ?w (kept_cells ?w ?fg min_size))" by simp_all
qed

lemma set_kept_cells:
  "set (kept_cells w fg min_size) =
     {i \<in> set fg. min_size < int (length (component w fg i))}"
  by (auto simp: kept_cells_def)

lemma kept_cells_closed:
  assumes "i \<in> set (kept_cells w fg min_size)" and "connected4 w fg i j"
  shows "j \<in> set (kept_cells w fg min_size)"
proof -
  from assms have "i \<in> set fg" by (simp add: set_kept_cells)
  with assms(2) have "j \<in> set fg" by (rule connected4_in_fg)
  moreover have "component w fg i = component w fg j"
    using assms(2) by (rule component_cong)
  ultimately show ?thesis
    using assms(1) by (simp add: set_kept_cells)
qed

lemma footprint_kept:
  assumes fg: "set fg \<subseteq> {..<n}" and d: "distinct fg"
    and i: "i \<in> set (kept_cells w fg min_size)"
  shows "footprint (map (label_of w (kept_cells w fg min_size)) [0..<n])
           (label_of w (kept_cells w fg min_size) i) = set (component w fg i)"
    and "min_size < int (card (set (component w fg i)))"
proof -
  let ?K = "kept_cells w fg min_size"
  have sub: "set ?K \<subseteq> set fg" by (auto simp: set_kept_cells)
  then have K: "set ?K \<subseteq> {..<n}" using fg by blast
  have "footprint (map (label_of w ?K) [0..<n]) (label_of w ?K i)
          = {k. k < n \<and> label_of w ?K k = label_of w ?K i}"
    by (auto simp: footprint_def)
  also have "\<dots> = set (component w ?K i)"
    by (rule footprint_component [OF K i])
  also have "\<dots> = set (component w fg i)"
    by (rule component_kept [OF sub kept_cells_closed i])
  finally show "footprint (map (label_of w ?K) [0..<n]) (label_of w ?K i) = set (component w fg i)" .
  have "distinct (component w fg i)" using d by (simp add: component_def)
  then have "card (set (component w fg i)) = length (component w fg i)"
    by (rule distinct_card)
  with i show "min_size < int (card (set (component w fg i)))"
    by (simp add: set_kept_cells)
qed

lemma labels_partition:
  assumes "snd (regionGroup img_array min_size nd) = Inr (labels, nb)"
  shows "length (data labels) = length (data img_array)
    \<and> (\<forall>i<length (data img_array). data labels ! i \<le> nb)
    \<and> (\<forall>i<length (data img_array).
          0 < data labels ! i \<longleftrightarrow>
            i \<in> set (depth_mask img_array nd)
            \<and> min_size < int (length (component (ncols img_array) (depth_mask img_array nd) i)))
    \<and> (\<forall>i<length (data img_array).
          0 < data labels ! i \<longrightarrow>
            footprint (data labels) (data labels ! i)
              = set (component (ncols img_array) (depth_mask img_array nd) i))
    \<and> (\<forall>l\<in>{1..nb}.
          footprint (data labels) l \<noteq> {}
          \<and> min_size < int (card (footprint (data labels) l))
          \<and> min_size \<le> int (card (footprint (data labels) l)))
    \<and> (\<forall>l l'. l \<noteq> l' \<longrightarrow> footprint (data labels) l \<inter> footprint (data labels) l' = {})
    \<and> footprint (data labels) 0
         = {..<length (data labels)} - (\<Union>l\<in>{1..nb}. footprint (data labels) l)"
proof -
  let ?w = "ncols img_array" and ?n = "length (data img_array)"
  let ?fg = "depth_mask img_array nd"
  let ?K = "kept_cells ?w ?fg min_size"
  from regionGroup_Inr [OF assms]
  have L: "data labels = map (label_of ?w ?K) [0..<?n]" and nb: "nb = length (roots ?w ?K)"
    by simp_all
  have fg: "set ?fg \<subseteq> {..<?n}"
    using foreground_facts(1) [of "map (\<lambda>v. v \<noteq> nd \<and> v \<noteq> 0) (data img_array)"]
    by (simp add: depth_mask_def)
  have d: "distinct ?fg" by (simp add: depth_mask_def distinct_foreground)
  have dK: "distinct ?K" using d by (simp add: kept_cells_def)
  have nth: "data labels ! i = label_of ?w ?K i" if "i < ?n" for i
    using that by (simp add: L)
  have c1: "length (data labels) = ?n" by (simp add: L)
  have c2: "\<forall>i<?n. data labels ! i \<le> nb"
    by (simp add: nth nb label_of_le)
  have pos: "0 < data labels ! i \<longleftrightarrow> i \<in> set ?K" if "i < ?n" for i
    using that label_of_zero_iff [of ?w ?K i] by (auto simp: nth)
  have c3: "\<forall>i<?n. 0 < data labels ! i \<longleftrightarrow>
              i \<in> set ?fg \<and> min_size < int (length (component ?w ?fg i))"
    by (simp add: pos set_kept_cells)
  have fp: "footprint (data labels) (data labels ! i) = set (component ?w ?fg i)"
    if "i < ?n" and "0 < data labels ! i" for i
  proof -
    from that have "i \<in> set ?K" by (simp add: pos)
    from footprint_kept(1) [OF fg d this] show ?thesis
      using that(1) by (simp add: L)
  qed
  have c4: "\<forall>i<?n. 0 < data labels ! i \<longrightarrow>
              footprint (data labels) (data labels ! i) = set (component ?w ?fg i)"
    using fp by blast
  have c5: "\<forall>l\<in>{1..nb}. footprint (data labels) l \<noteq> {}
              \<and> min_size < int (card (footprint (data labels) l))
              \<and> min_size \<le> int (card (footprint (data labels) l))"
  proof
    fix l assume "l \<in> {1..nb}"
    then have "1 \<le> l" and "l \<le> length (roots ?w ?K)" by (simp_all add: nb)
    from label_of_surj [OF dK this] obtain i where i: "i \<in> set ?K" and l: "label_of ?w ?K i = l"
      by blast
    from i fg have lt: "i < ?n" by (auto simp: set_kept_cells)
    have "footprint (data labels) l = set (component ?w ?fg i)"
      using footprint_kept(1) [OF fg d i] by (simp add: L l)
    moreover have "min_size < int (card (set (component ?w ?fg i)))"
      by (rule footprint_kept(2) [OF fg d i])
    moreover have "i \<in> footprint (data labels) l"
      using lt l by (simp add: footprint_def L)
    ultimately show "footprint (data labels) l \<noteq> {}
              \<and> min_size < int (card (footprint (data labels) l))
              \<and> min_size \<le> int (card (footprint (data labels) l))"
      by auto
  qed
  have c6: "\<forall>l l'. l \<noteq> l' \<longrightarrow> footprint (data labels) l \<inter> footprint (data labels) l' = {}"
    by (auto simp: footprint_def)
  have c7: "footprint (data labels) 0
         = {..<length (data labels)} - (\<Union>l\<in>{1..nb}. footprint (data labels) l)"
  proof -
    have "data labels ! i \<in> {1..nb}" if "i < ?n" and "data labels ! i \<noteq> 0" for i
      using that c2 by (auto simp: Suc_le_eq)
    then show ?thesis
      unfolding c1 by (auto simp: footprint_def c1)
  qed
  from c1 c2 c3 c4 c5 c6 c7 show ?thesis by blast
qed

text \<open>
  Claim C5: on every depth field with at least one cell \<open>regionGroup\<close> returns a label
  grid and a count.  The grid has the length of the input and labels between 0 and
  \<open>count\<close>.  A cell has a positive label exactly when it lies in a connected component
  of the mask with more than \<open>min_size\<close> cells, so the components with at most
  \<open>min_size\<close> cells are removed; the cells that share a positive label are exactly one
  component of the mask.  Every label from 1 to \<open>count\<close> occurs, on more than \<open>min_size\<close>
  cells (hence on at least \<open>min_size\<close>), two different labels have no cell in common,
  and label 0 is the complement of the positive labels.
\<close>

theorem regionGroup_partition:
  assumes "data img_array \<noteq> []"
  shows "\<exists>labels nb.
    snd (regionGroup img_array min_size nd) = Inr (labels, nb)
    \<and> length (data labels) = length (data img_array)
    \<and> (\<forall>i<length (data img_array). data labels ! i \<le> nb)
    \<and> (\<forall>i<length (data img_array).
          0 < data labels ! i \<longleftrightarrow>
            i \<in> set (depth_mask img_array nd)
            \<and> min_size < int (length (component (ncols img_array) (depth_mask img_array nd) i)))
    \<and> (\<forall>i<length (data img_array).
          0 < data labels ! i \<longrightarrow>
            footprint (data labels) (data labels ! i)
              = set (component (ncols img_array) (depth_mask img_array nd) i))
    \<and> (\<forall>l\<in>{1..nb}.
          footprint (data labels) l \<noteq> {}
          \<and> min_size < int (card (footprint (data labels) l))
          \<and> min_size \<le> int (card (footprint (data labels) l)))
    \<and> (\<forall>l l'. l \<noteq> l' \<longrightarrow> footprint (data labels) l \<inter> footprint (data labels) l' = {})
    \<and> footprint (data labels) 0
         = {..<length (data labels)} - (\<Union>l\<in>{1..nb}. footprint (data labels) l)"
proof -
  from regionGroup_returns [OF assms, of min_size nd]
  obtain labels nb where r: "snd (regionGroup img_array min_size nd) = Inr (labels, nb)"
    by blast
  show ?thesis
    by (rule exI [where x = labels], rule exI [where x = nb])
       (rule conjI [OF r labels_partition [OF r]])
qed

theorem regionGroup_partition_witness:
  "snd (regionGroup strip 1 (- 9999)) = Inr (\<lparr>nrows = 1, ncols = 4, data = [0, 0, 1, 1]\<rparr>, 1)
   \<and> footprint [0, 0, 1, 1] 1 \<noteq> {}
   \<and> 1 < int (card (footprint [0, 0, 1, 1] 1))
   \<and> footprint [0, 0, 1, 1] 0 = {..<length (data strip)} - footprint [0, 0, 1, 1] 1"
proof -
  have h: "snd (regionGroup strip 1 (- 9999)) = Inr (\<lparr>nrows = 1, ncols = 4, data = [0, 0, 1, 1]\<rparr>, 1)"
    by code_simp
  have ne: "data strip \<noteq> []" by (simp add: strip_def)
  from regionGroup_partition [OF ne, of 1 "- 9999"] h show ?thesis
    by (auto simp: strip_def)
qed

lemma regionGroup_shape:
  "snd (regionGroup img_array min_size nd) = Inr (labels, nb)
     \<Longrightarrow> nrows labels = nrows img_array \<and> ncols labels = ncols img_array"
  by (auto simp: regionGroup_def ndimage_label_def nonzero_def Let_def split: if_splits)

lemma foreground_none: "(\<forall>v\<in>set xs. \<not> P v) \<Longrightarrow> foreground (map P xs) = []"
  by (auto simp: foreground_def filter_empty_conv)

text \<open>
  Claim C8: on a depth field (a grid with at least one cell, whose values are not
  negative) whose mask of positive cells other than the no-data value is empty,
  \<open>regionGroup\<close> raises no error: it returns the count 0 and a label grid of zeros of
  the shape of the input.
\<close>

theorem regionGroup_empty_mask:
  assumes "data img_array \<noteq> []"
    and "\<forall>v\<in>set (data img_array). 0 \<le> v"
    and "\<forall>v\<in>set (data img_array). \<not> (0 < v \<and> v \<noteq> nd)"
  shows "snd (regionGroup img_array min_size nd) =
           Inr (\<lparr>nrows = nrows img_array, ncols = ncols img_array,
                 data = replicate (length (data img_array)) 0\<rparr>, 0)"
proof -
  from regionGroup_returns [OF assms(1), of min_size nd]
  obtain labels nb where r: "snd (regionGroup img_array min_size nd) = Inr (labels, nb)"
    by blast
  have "\<forall>v\<in>set (data img_array). \<not> (v \<noteq> nd \<and> v \<noteq> 0)"
    using assms(2,3) by fastforce
  then have m: "depth_mask img_array nd = []"
    unfolding depth_mask_def by (rule foreground_none)
  have k: "kept_cells (ncols img_array) [] min_size = []"
    by (simp add: kept_cells_def)
  have l: "label_of (ncols img_array) [] = (\<lambda>i. 0)"
    by (rule ext) (simp add: label_of_def)
  from regionGroup_Inr [OF r]
  have "data labels = replicate (length (data img_array)) 0" and "nb = 0"
    by (simp_all add: m k l roots_def map_replicate_const)
  moreover from regionGroup_shape [OF r]
  have "nrows labels = nrows img_array" and "ncols labels = ncols img_array" by simp_all
  ultimately have "labels = \<lparr>nrows = nrows img_array, ncols = ncols img_array,
                 data = replicate (length (data img_array)) 0\<rparr>" and "nb = 0"
    by simp_all
  with r show ?thesis by simp
qed

theorem regionGroup_empty_mask_witness:
  "snd (regionGroup flat_depth 0 (- 9999)) = Inr (\<lparr>nrows = 2, ncols = 2, data = [0, 0, 0, 0]\<rparr>, 0)"
  using regionGroup_empty_mask [of flat_depth "- 9999" 0]
  by (simp add: flat_depth_def numeral_eq_Suc)

section \<open>Properties of the attribute table\<close>

lemma is_digit_digit_char: "d < 10 \<Longrightarrow> is_digit (digit_char d)"
proof -
  assume "d < 10"
  then have "d \<in> {0, 1, 2, 3, 4, 5, 6, 7, 8, 9}" by auto
  then show ?thesis
    by (auto simp: is_digit_def digit_char_def)
qed

lemma digits_str_nat: "digits (str_nat n)"
proof (induction n rule: str_nat.induct)
  case (1 n)
  show ?case
  proof (cases "n < 10")
    case True
    then show ?thesis
      by (subst str_nat.simps) (simp add: digits_def is_digit_digit_char)
  next
    case False
    with 1 have "digits (str_nat (n div 10))" by simp
    moreover have "is_digit (digit_char (n mod 10))"
      by (rule is_digit_digit_char) simp
    ultimately show ?thesis
      using False by (subst str_nat.simps) (simp add: digits_def)
  qed
qed

lemma is_digit_not_minus: "is_digit ch \<Longrightarrow> ch \<noteq> CHR ''-''"
  by (auto simp: is_digit_def)

lemma two_decimals_format_2f: "two_decimals (format_2f x)"
proof -
  define q where "q = round_half_even (\<bar>x\<bar> * 100)"
  define ds where "ds = str_nat (q div 100)"
  have ds: "digits ds" unfolding ds_def by (rule digits_str_nat)
  then obtain c cs where dcs: "ds = c # cs"
    by (cases ds) (auto simp: digits_def)
  have c: "c \<noteq> CHR ''-''"
    using ds dcs by (auto simp: digits_def is_digit_not_minus)
  have a: "is_digit (digit_char (q mod 100 div 10))"
    by (rule is_digit_digit_char) (simp add: less_mult_imp_div_less)
  have b: "is_digit (digit_char (q mod 10))"
    by (rule is_digit_digit_char) simp
  show ?thesis
    using a b c ds
    unfolding format_2f_def Let_def q_def [symmetric] ds_def [symmetric] two_decimals_def
    by (cases "x < 0") (simp_all add: dcs)
qed

lemma two_decimals_format_2f_float64: "isfinite x \<Longrightarrow> two_decimals (format_2f_float64 x)"
  by (cases x) (simp_all add: two_decimals_format_2f)

lemma csv_fields_nth:
  "csv_fields float_str dep ! 0 = str_nat (id' dep)"
  "csv_fields float_str dep ! 1 = float_str (count dep)"
  "csv_fields float_str dep ! 2 = float_str (size' dep)"
  "csv_fields float_str dep ! 3 = format_2f_float64 (volume dep)"
  "csv_fields float_str dep ! 4 = format_2f_float64 (meanDepth dep)"
  "csv_fields float_str dep ! 5 = format_2f (maxDepth dep)"
  "csv_fields float_str dep ! 6 = format_2f (minElev dep)"
  "csv_fields float_str dep ! 7 = format_2f (bndElev dep)"
  "length (csv_fields float_str dep) = 8"
  by (simp_all add: csv_fields_def)

text \<open>
  Claim C7, as amended: the table starts with the header \<open>region-id, count, area,
  volume, avg-depth, max-depth, min-elev, max-elev\<close> and has one row for every record, in
  the order of the list.  A row has eight fields: the label as an integer, the pixel
  count and the area under the plain conversion \<open>{}\<close> of a float, and the volume, the
  mean depth, the maximum depth, the minimum and the boundary elevation under
  \<open>{:.2f}\<close>, which gives exactly two decimal places whenever the value is a number.
  The list that \<open>ExtractSinks\<close> writes is in ascending order of the labels.
\<close>

theorem write_dep_csv_table:
  "hd (write_dep_csv float_str dep_list) =
     [''region-id'', ''count'', ''area'', ''volume'', ''avg-depth'', ''max-depth'',
      ''min-elev'', ''max-elev'']
   \<and> tl (write_dep_csv float_str dep_list) = map (csv_fields float_str) dep_list
   \<and> (\<forall>dep. length (csv_fields float_str dep) = 8
         \<and> csv_fields float_str dep ! 0 = str_nat (id' dep)
         \<and> digits (csv_fields float_str dep ! 0)
         \<and> csv_fields float_str dep ! 1 = float_str (count dep)
         \<and> csv_fields float_str dep ! 2 = float_str (size' dep)
         \<and> csv_fields float_str dep ! 3 = format_2f_float64 (volume dep)
         \<and> csv_fields float_str dep ! 4 = format_2f_float64 (meanDepth dep)
         \<and> (isfinite (volume dep) \<longrightarrow> two_decimals (csv_fields float_str dep ! 3))
         \<and> (isfinite (meanDepth dep) \<longrightarrow> two_decimals (csv_fields float_str dep ! 4))
         \<and> two_decimals (csv_fields float_str dep ! 5)
         \<and> two_decimals (csv_fields float_str dep ! 6)
         \<and> two_decimals (csv_fields float_str dep ! 7))
   \<and> (\<forall>outs. ExtractSinks dem min_size = Inr outs \<longrightarrow>
         sorted_wrt (<) (map id' (out_csv_file outs)))"
proof -
  have 1: "hd (write_dep_csv float_str dep_list) =
     [''region-id'', ''count'', ''area'', ''volume'', ''avg-depth'', ''max-depth'',
      ''min-elev'', ''max-elev'']"
    by (simp add: write_dep_csv_def header_def)
  have 2: "tl (write_dep_csv float_str dep_list) = map (csv_fields float_str) dep_list"
    by (simp add: write_dep_csv_def)
  have 3: "length (csv_fields float_str dep) = 8
         \<and> csv_fields float_str dep ! 0 = str_nat (id' dep)
         \<and> digits (csv_fields float_str dep ! 0)
         \<and> csv_fields float_str dep ! 1 = float_str (count dep)
         \<and> csv_fields float_str dep ! 2 = float_str (size' dep)
         \<and> csv_fields float_str dep ! 3 = format_2f_float64 (volume dep)
         \<and> csv_fields float_str dep ! 4 = format_2f_float64 (meanDepth dep)
         \<and> (isfinite (volume dep) \<longrightarrow> two_decimals (csv_fields float_str dep ! 3))
         \<and> (isfinite (meanDepth dep) \<longrightarrow> two_decimals (csv_fields float_str dep ! 4))
         \<and> two_decimals (csv_fields float_str dep ! 5)
         \<and> two_decimals (csv_fields float_str dep ! 6)
         \<and> two_decimals (csv_fields float_str dep ! 7)" for dep
    by (simp only: csv_fields_nth digits_str_nat two_decimals_format_2f simp_thms)
       (blast intro: two_decimals_format_2f_float64)
  have 4: "sorted_wrt (<) (map id' (out_csv_file outs))"
    if "ExtractSinks dem min_size = Inr outs" for outs
    using ExtractSinks_Inr [OF that] by blast
  from 1 2 3 4 show ?thesis by blast
qed

theorem write_dep_csv_table_witness:
  "write_dep_csv whole_float_str [square_dep] =
     [[''region-id'', ''count'', ''area'', ''volume'', ''avg-depth'', ''max-depth'',
       ''min-elev'', ''max-elev''],
      [''1'', ''4.0'', ''4.0'', ''2.50'', ''0.62'', ''1.00'', ''2.00'', ''3.00'']]
   \<and> two_decimals (csv_fields whole_float_str square_dep ! 3)
   \<and> two_decimals (csv_fields whole_float_str square_dep ! 4)
   \<and> sorted_wrt (<) (map id' (out_csv_file pit3_outputs))"
proof -
  have e: "write_dep_csv whole_float_str [square_dep] =
     [[''region-id'', ''count'', ''area'', ''volume'', ''avg-depth'', ''max-depth'',
       ''min-elev'', ''max-elev''],
      [''1'', ''4.0'', ''4.0'', ''2.50'', ''0.62'', ''1.00'', ''2.00'', ''3.00'']]"
    by code_simp
  have h: "ExtractSinks pit3 0 = Inr pit3_outputs"
    by code_simp
  have fin: "isfinite (volume square_dep)" "isfinite (meanDepth square_dep)"
    by (simp_all add: square_dep_def)
  note t = write_dep_csv_table [of whole_float_str "[square_dep]" pit3 0]
  from t fin have a: "two_decimals (csv_fields whole_float_str square_dep ! 3)"
    and a': "two_decimals (csv_fields whole_float_str square_dep ! 4)"
    by blast+
  from t h have b: "sorted_wrt (<) (map id' (out_csv_file pit3_outputs))"
    by blast
  from e a a' b show ?thesis by blast
qed

text \<open>
  Claim C7 as stated fails in the count and in the area column: the count 4.0 and the
  area 4.0 are both written as \<open>4.0\<close>, which is neither an integer nor a number with
  two decimal places.
\<close>

theorem write_dep_csv_counterexample:
  "csv_fields whole_float_str square_dep ! 1 = ''4.0''
   \<and> \<not> digits (csv_fields whole_float_str square_dep ! 1)
   \<and> csv_fields whole_float_str square_dep ! 2 = ''4.0''
   \<and> \<not> two_decimals (csv_fields whole_float_str square_dep ! 2)"
  by code_simp

section \<open>The pit inside a ring\<close>

lemma connected4_step:
  assumes "connected4 w fg i j" and "j \<in> set fg" and "k \<in> set fg" and "adjacent4 w j k"
  shows "connected4 w fg i k"
proof -
  have "(j, k) \<in> set (fg_edges w fg)"
    using assms(2-4) by (simp add: set_fg_edges)
  then have "connected4 w fg j k" by (auto simp: connected4_def)
  with assms(1) show ?thesis by (rule connected4_trans)
qed

lemma one_component:
  assumes r: "r \<in> set fg" and least: "\<And>i. i \<in> set fg \<Longrightarrow> r \<le> i"
    and conn: "\<And>i. i \<in> set fg \<Longrightarrow> connected4 w fg r i" and d: "distinct fg"
  shows "label_of w fg i = (if i \<in> set fg then 1 else 0)" and "length (roots w fg) = 1"
proof -
  have root: "component_root w fg i = r" if "i \<in> set fg" for i
  proof -
    have "component_root w fg i = component_root w fg r"
      by (rule component_root_eq) (rule connected4_sym, rule conn [OF that])
    moreover have "component_root w fg r \<le> r"
      by (rule component_root_le [OF r connected4_refl])
    moreover have "r \<le> component_root w fg r"
      by (rule least) (rule component_root_in(1) [OF r])
    ultimately show ?thesis by simp
  qed
  have "roots w fg = filter (\<lambda>j. j = r) fg"
    unfolding roots_def by (rule filter_cong) (auto simp: root)
  also have "\<dots> = [r]"
    using r d by (induction fg) (auto simp: filter_empty_conv)
  finally have roots: "roots w fg = [r]" .
  then show "length (roots w fg) = 1" by simp
  show "label_of w fg i = (if i \<in> set fg then 1 else 0)"
    by (simp add: label_of_def roots root rank_def)
qed

lemma kept_cells_all:
  assumes "min_size \<le> 0"
  shows "kept_cells w fg min_size = fg"
proof -
  have "min_size < int (length (component w fg i))" if "i \<in> set fg" for i
  proof -
    have "i \<in> set (component w fg i)"
      using that by (simp add: set_component connected4_refl)
    then have "0 < length (component w fg i)" by (rule length_pos_if_in_set)
    with assms show ?thesis by (cases "component w fg i") auto
  qed
  then show ?thesis by (simp add: kept_cells_def)
qed

lemma regionGroup_eq:
  assumes "data img_array \<noteq> []"
  shows "regionGroup img_array min_size nd =
     (img_array\<lparr>data := map (\<lambda>v. if v = nd then 0 else v) (data img_array)\<rparr>,
      Inr (\<lparr>nrows = nrows img_array, ncols = ncols img_array,
            data = map (label_of (ncols img_array)
                          (kept_cells (ncols img_array) (depth_mask img_array nd) min_size))
                     [0..<length (data img_array)]\<rparr>,
           length (roots (ncols img_array)
                     (kept_cells (ncols img_array) (depth_mask img_array nd) min_size))))"
proof -
  from regionGroup_returns [OF assms, of min_size nd]
  obtain labels nb where r: "snd (regionGroup img_array min_size nd) = Inr (labels, nb)"
    by blast
  from regionGroup_Inr [OF r] regionGroup_shape [OF r]
  have "labels = \<lparr>nrows = nrows img_array, ncols = ncols img_array,
            data = map (label_of (ncols img_array)
                          (kept_cells (ncols img_array) (depth_mask img_array nd) min_size))
                     [0..<length (data img_array)]\<rparr>"
    and "nb = length (roots (ncols img_array)
                     (kept_cells (ncols img_array) (depth_mask img_array nd) min_size))"
    by simp_all
  moreover have "fst (regionGroup img_array min_size nd) =
     img_array\<lparr>data := map (\<lambda>v. if v = nd then 0 else v) (data img_array)\<rparr>"
    by (simp add: regionGroup_def Let_def split: prod.split)
  ultimately show ?thesis
    using r by (simp add: prod_eq_iff)
qed

lemma upt_25:
  "[0..<25] = [0, 1, 2, 3, 4, 5, 6, 7, 8, 9, 10, 11, 12, 13, 14, 15, 16, 17, 18, 19,
               20, 21, 22, 23, 24]"
  by code_simp

lemma elev_range_pit5: "elev_range (pit5 r) = Inr (1, 10)"
  by (simp add: elev_range_def pit5_def)

lemma FillDepressions_pit5: "FillDepressions (pit5 r) = pit5_filled r"
  unfolding pit5_def pit5_filled_def by code_simp

lemma depth_mask_pit5: "depth_mask (pit5_diff r) (- 9999) = interior_cells"
  unfolding pit5_diff_def interior_cells_def by code_simp

lemma interior_connected:
  assumes "i \<in> set interior_cells"
  shows "connected4 5 interior_cells 6 i"
proof -
  have c6: "connected4 5 interior_cells 6 6" by (rule connected4_refl)
  have c7: "connected4 5 interior_cells 6 7"
    by (rule connected4_step [OF c6]) (simp_all add: interior_cells_def adjacent4_def)
  have c8: "connected4 5 interior_cells 6 8"
    by (rule connected4_step [OF c7]) (simp_all add: interior_cells_def adjacent4_def)
  have c11: "connected4 5 interior_cells 6 11"
    by (rule connected4_step [OF c6]) (simp_all add: interior_cells_def adjacent4_def)
  have c12: "connected4 5 interior_cells 6 12"
    by (rule connected4_step [OF c11]) (simp_all add: interior_cells_def adjacent4_def)
  have c13: "connected4 5 interior_cells 6 13"
    by (rule connected4_step [OF c12]) (simp_all add: interior_cells_def adjacent4_def)
  have c16: "connected4 5 interior_cells 6 16"
    by (rule connected4_step [OF c11]) (simp_all add: interior_cells_def adjacent4_def)
  have c17: "connected4 5 interior_cells 6 17"
    by (rule connected4_step [OF c16]) (simp_all add: interior_cells_def adjacent4_def)
  have c18: "connected4 5 interior_cells 6 18"
    by (rule connected4_step [OF c17]) (simp_all add: interior_cells_def adjacent4_def)
  from assms have "i = 6 \<or> i = 7 \<or> i = 8 \<or> i = 11 \<or> i = 12 \<or> i = 13 \<or> i = 16 \<or> i = 17 \<or> i = 18"
    by (simp add: interior_cells_def)
  with c6 c7 c8 c11 c12 c13 c16 c17 c18 show ?thesis by blast
qed

lemma interior_labels:
  shows "label_of 5 interior_cells i = (if i \<in> set interior_cells then 1 else 0)"
    and "length (roots 5 interior_cells) = 1"
proof -
  have r: "6 \<in> set interior_cells" and d: "distinct interior_cells"
    by (simp_all add: interior_cells_def)
  have least: "6 \<le> i" if "i \<in> set interior_cells" for i
    using that by (auto simp: interior_cells_def)
  show "label_of 5 interior_cells i = (if i \<in> set interior_cells then 1 else 0)"
    by (rule one_component(1) [OF r least interior_connected d])
  show "length (roots 5 interior_cells) = 1"
    by (rule one_component(2) [OF r least interior_connected d])
qed

lemma regionGroup_pit5:
  "regionGroup (pit5_diff r) 0 (- 9999) = (pit5_diff r, Inr (pit5_labels, 1))"
proof -
  have ne: "data (pit5_diff r) \<noteq> []" by (simp add: pit5_diff_def)
  have buf: "(pit5_diff r)\<lparr>data := map (\<lambda>v. if v = - 9999 then 0 else v) (data (pit5_diff r))\<rparr>
      = pit5_diff r"
    by (simp add: pit5_diff_def)
  have K: "kept_cells 5 (depth_mask (pit5_diff r) (- 9999)) 0 = interior_cells"
    by (simp add: kept_cells_all depth_mask_pit5)
  have n: "ncols (pit5_diff r) = 5" "nrows (pit5_diff r) = 5" "length (data (pit5_diff r)) = 25"
    by (simp_all add: pit5_diff_def)
  have lab: "map (label_of 5 interior_cells) [0..<25] = data pit5_labels"
    unfolding upt_25
    by (simp only: list.map interior_labels(1)) (simp add: interior_cells_def pit5_labels_def)
  show ?thesis
    unfolding regionGroup_eq [OF ne] buf K n interior_labels(2) lab
    by (simp add: pit5_labels_def)
qed

lemma regionprops_pit5: "regionprops pit5_labels (pit5 r) = [pit5_region]"
  unfolding pit5_labels_def pit5_def pit5_region_def by code_simp

lemma get_dep_props_pit5:
  "get_dep_props [pit5_region] r =
     [\<lparr>id' = 1, count = 9, size' = 9 * r\<^sup>2, volume = Finite (4 * r\<^sup>2),
       meanDepth = Finite (4 / 9), maxDepth = 4, minElev = 1, bndElev = 5\<rparr>]"
  by (simp add: dep_props_def pit5_region_def true_divide_def Let_def)

lemma ExtractSinks_pit5: "ExtractSinks (pit5 r) 0 = Inr (pit5_outputs r)"
proof -
  have D: "(FillDepressions (pit5 r))\<lparr>data := map2 (-) (data (FillDepressions (pit5 r)))
                                                (data (pit5 r)), no_data := 0\<rparr> = pit5_diff r"
    unfolding FillDepressions_pit5 by (simp add: pit5_filled_def pit5_def pit5_diff_def)
  have nd: "no_data (pit5 r) = - 9999" and cs: "cell_size (pit5 r) = r"
    by (simp_all add: pit5_def)
  have rg: "regionGroup ((FillDepressions (pit5 r))\<lparr>data := map2 (-) (data (FillDepressions (pit5 r)))
                                                (data (pit5 r)), no_data := 0\<rparr>) 0 (no_data (pit5 r))
            = (pit5_diff r, Inr (pit5_labels, 1))"
    unfolding D nd by (rule regionGroup_pit5)
  show ?thesis
    unfolding ExtractSinks_eq [OF elev_range_pit5 rg] cs regionprops_pit5 get_dep_props_pit5
      FillDepressions_pit5
    by (simp add: pit5_outputs_def np2rdarray_def pit5_def pit5_filled_def pit5_diff_def
          pit5_labels_def)
qed

text \<open>
  Claim C1, as amended: on the grid of five rows and five columns with the edge at 10,
  the ring at 5 and the centre at 1, with \<open>min_size = 0\<close> and any resolution,
  \<open>ExtractSinks\<close> returns.  The filling raises the ring and the centre to 10, the level
  of the edge, so the depth field is positive on nine cells (5 on the ring, 9 at the
  centre), and the table reports exactly one region: its pixel count is 9, its maximum
  depth is 4 (between the raw elevations 5 and 1 of the region), its mean depth is
  \<open>4 / 9\<close> and its volume is 4 times the square of the resolution.
\<close>

theorem ExtractSinks_pit_in_ring:
  "ExtractSinks (pit5 resolution) 0 = Inr (pit5_outputs resolution)
   \<and> data (out_dem_filled (pit5_outputs resolution)) = replicate 25 10
   \<and> data (out_depth (pit5_outputs resolution)) =
       [0, 0, 0, 0, 0,
        0, 5, 5, 5, 0,
        0, 5, 9, 5, 0,
        0, 5, 5, 5, 0,
        0, 0, 0, 0, 0]
   \<and> out_csv_file (pit5_outputs resolution) =
       [\<lparr>id' = 1, count = 9, size' = 9 * resolution\<^sup>2, volume = Finite (4 * resolution\<^sup>2),
         meanDepth = Finite (4 / 9), maxDepth = 4, minElev = 1, bndElev = 5\<rparr>]"
proof -
  have "replicate 25 (10::real) =
      [10, 10, 10, 10, 10, 10, 10, 10, 10, 10, 10, 10, 10, 10, 10, 10, 10, 10, 10, 10,
       10, 10, 10, 10, 10]"
    by code_simp
  then show ?thesis
    by (simp add: ExtractSinks_pit5) (simp add: pit5_outputs_def pit5_filled_def pit5_diff_def)
qed

theorem ExtractSinks_pit_in_ring_witness:
  "ExtractSinks (pit5 2) 0 = Inr (pit5_outputs 2)
   \<and> map volume (out_csv_file (pit5_outputs 2)) = [Finite 16]"
  using ExtractSinks_pit_in_ring [of 2]
  by simp

text \<open>
  Claim C1 as stated fails at the resolution 1: the one region that is reported has the
  pixel count 9, not 1, and the mean depth \<open>4 / 9\<close>, not 4.
\<close>

theorem ExtractSinks_pit_in_ring_counterexample:
  "ExtractSinks (pit5 1) 0 = Inr (pit5_outputs 1)
   \<and> map count (out_csv_file (pit5_outputs 1)) = [9]
   \<and> map count (out_csv_file (pit5_outputs 1)) \<noteq> [1]
   \<and> map meanDepth (out_csv_file (pit5_outputs 1)) = [Finite (4 / 9)]
   \<and> map meanDepth (out_csv_file (pit5_outputs 1)) \<noteq> [Finite 4]"
  by (simp add: ExtractSinks_pit5) (simp add: pit5_outputs_def)

end
